theory Spec2Isabelle
  imports Complex_Main "HOL-Library.Log_Nat"
begin

section \<open>JavaScript numbers\<close>

text \<open>
  Every number of \<^verbatim>\<open>script.js\<close> is an IEEE 754 binary64 value. A finite value is
  carried by the real it denotes, the two infinities and NaN are constructors of their
  own. The sign of a zero is not kept: it is observable in the player only through a
  division by that zero, and the one zero divisor the player can produce
  (\<^verbatim>\<open>heroHeight - viewportHeight\<close> of two integer lengths, or an integer layout length)
  is \<open>+0\<close>, which is how \<open>jdiv\<close> reads a zero divisor.
\<close>

datatype jsnum = Num real | PosInf | NegInf | NaN

subsection \<open>Rounding to binary64\<close>

text \<open>
  \<open>ilog2 x\<close> is the binary exponent of a positive \<open>x\<close> (\<open>2 ^ e \<le> x < 2 ^ (e + 1)\<close>), found
  from bit lengths; \<open>rne\<close> rounds a non-negative real to the nearest integer, ties to
  even; \<open>rnd\<close> rounds to the nearest value with a 53 bit significand, with the exponent
  bounded below by the subnormal range; \<open>fl\<close> adds the overflow to an infinity.
\<close>

definition ilog2 :: "real \<Rightarrow> int" where
  "ilog2 x = (if 1 \<le> x then bitlen \<lfloor>x\<rfloor> - 1 else - bitlen (\<lceil>1 / x\<rceil> - 1))"

definition rne :: "real \<Rightarrow> int" where
  "rne r = (let f = \<lfloor>r\<rfloor>; d = r - of_int f in
            if d < 1 / 2 then f else if 1 / 2 < d then f + 1
            else if even f then f else f + 1)"

definition rnd :: "real \<Rightarrow> real" where
  "rnd x = (if x = 0 then 0 else
     let e = max (ilog2 \<bar>x\<bar>) (- 1022); u = 2 powi (e - 52)
     in sgn x * of_int (rne (\<bar>x\<bar> / u)) * u)"

definition fl :: "real \<Rightarrow> jsnum" where
  "fl x = (let r = rnd x in
           if 2 ^ 1024 \<le> r then PosInf
           else if r \<le> - (2 ^ 1024) then NegInf
           else Num r)"

subsection \<open>Operators and \<^verbatim>\<open>Math\<close> functions\<close>

fun jneg :: "jsnum \<Rightarrow> jsnum" where
  "jneg (Num a) = Num (- a)"
| "jneg PosInf = NegInf"
| "jneg NegInf = PosInf"
| "jneg NaN = NaN"

fun jsub :: "jsnum \<Rightarrow> jsnum \<Rightarrow> jsnum" where
  "jsub (Num a) (Num b) = fl (a - b)"
| "jsub NaN _ = NaN"
| "jsub _ NaN = NaN"
| "jsub PosInf PosInf = NaN"
| "jsub NegInf NegInf = NaN"
| "jsub PosInf _ = PosInf"
| "jsub NegInf _ = NegInf"
| "jsub _ PosInf = NegInf"
| "jsub _ NegInf = PosInf"

fun jmul :: "jsnum \<Rightarrow> jsnum \<Rightarrow> jsnum" where
  "jmul (Num a) (Num b) = fl (a * b)"
| "jmul NaN _ = NaN"
| "jmul _ NaN = NaN"
| "jmul (Num a) y = (if a = 0 then NaN else if 0 < a then y else jneg y)"
| "jmul x (Num b) = (if b = 0 then NaN else if 0 < b then x else jneg x)"
| "jmul PosInf y = y"
| "jmul NegInf y = jneg y"

fun jdiv :: "jsnum \<Rightarrow> jsnum \<Rightarrow> jsnum" where
  "jdiv (Num a) (Num b) =
     (if b = 0 then (if a = 0 then NaN else if 0 < a then PosInf else NegInf)
      else fl (a / b))"
| "jdiv NaN _ = NaN"
| "jdiv _ NaN = NaN"
| "jdiv (Num a) _ = Num 0"
| "jdiv x (Num b) = (if 0 \<le> b then x else jneg x)"
| "jdiv _ _ = NaN"

text \<open>\<^verbatim>\<open>Math.max\<close>, \<^verbatim>\<open>Math.min\<close> and \<^verbatim>\<open>Math.floor\<close>: a NaN argument gives NaN.\<close>

fun jmax :: "jsnum \<Rightarrow> jsnum \<Rightarrow> jsnum" where
  "jmax NaN _ = NaN"
| "jmax _ NaN = NaN"
| "jmax PosInf _ = PosInf"
| "jmax _ PosInf = PosInf"
| "jmax NegInf y = y"
| "jmax x NegInf = x"
| "jmax (Num a) (Num b) = Num (max a b)"

fun jmin :: "jsnum \<Rightarrow> jsnum \<Rightarrow> jsnum" where
  "jmin NaN _ = NaN"
| "jmin _ NaN = NaN"
| "jmin NegInf _ = NegInf"
| "jmin _ NegInf = NegInf"
| "jmin PosInf y = y"
| "jmin x PosInf = x"
| "jmin (Num a) (Num b) = Num (min a b)"

fun jfloor :: "jsnum \<Rightarrow> jsnum" where
  "jfloor (Num a) = Num (of_int \<lfloor>a\<rfloor>)"
| "jfloor x = x"

text \<open>The comparisons \<^verbatim>\<open><\<close>, \<^verbatim>\<open><=\<close>, \<^verbatim>\<open>>\<close>, \<^verbatim>\<open>>=\<close>: false as soon as one side is NaN.\<close>

fun jlt :: "jsnum \<Rightarrow> jsnum \<Rightarrow> bool" where
  "jlt NaN _ = False"
| "jlt _ NaN = False"
| "jlt (Num a) (Num b) = (a < b)"
| "jlt PosInf _ = False"
| "jlt _ NegInf = False"
| "jlt _ _ = True"

definition jle :: "jsnum \<Rightarrow> jsnum \<Rightarrow> bool" where
  "jle a b = (jlt a b \<or> (a = b \<and> a \<noteq> NaN))"

definition jgt :: "jsnum \<Rightarrow> jsnum \<Rightarrow> bool" where
  "jgt a b = jlt b a"

definition jge :: "jsnum \<Rightarrow> jsnum \<Rightarrow> bool" where
  "jge a b = jle b a"

text \<open>\<^verbatim>\<open>a !== b\<close> on numbers: NaN differs from everything, itself included.\<close>

definition jsne :: "jsnum \<Rightarrow> jsnum \<Rightarrow> bool" where
  "jsne a b = (a = NaN \<or> b = NaN \<or> a \<noteq> b)"

text \<open>Truthiness of a number (\<^verbatim>\<open>!x\<close>, \<^verbatim>\<open>x || y\<close>): zero and NaN are falsy.\<close>

fun truthy :: "jsnum \<Rightarrow> bool" where
  "truthy (Num a) = (a \<noteq> 0)"
| "truthy NaN = False"
| "truthy _ = True"

definition jor :: "jsnum \<Rightarrow> jsnum \<Rightarrow> jsnum" where
  "jor a b = (if truthy a then a else b)"

fun isFinite :: "jsnum \<Rightarrow> bool" where
  "isFinite (Num a) = True"
| "isFinite _ = False"


section \<open>Browser objects\<close>

text \<open>
  A decoded image: the index of the frame it was requested for (the argument of
  \<^verbatim>\<open>getFramePath\<close>) and the dimensions it reports through \<^verbatim>\<open>img.width\<close> and
  \<^verbatim>\<open>img.height\<close> (unsigned integers).
\<close>

record img =
  img_frame :: nat
  img_width :: nat
  img_height :: nat

text \<open>
  The 2D context. Its transform is kept symbolically (the matrix given to
  \<^verbatim>\<open>setTransform\<close>, then the scalings applied to it). The pixel buffer is the list of
  paint operations applied since the buffer was last cleared as a whole, oldest first:
  two buffers with the same list hold the same pixels.
\<close>

datatype xform =
    Matrix jsnum jsnum jsnum jsnum jsnum jsnum
  | Scaled xform jsnum jsnum

datatype paint =
    Cleared xform jsnum jsnum jsnum jsnum
  | Filled string xform jsnum jsnum jsnum jsnum
  | Drawn img xform jsnum jsnum jsnum jsnum

record ctx2d =
  transform :: xform
  fillStyle :: string
  pixels :: "paint list"

definition identity :: xform where
  "identity = Matrix (Num 1) (Num 0) (Num 0) (Num 1) (Num 0) (Num 0)"

definition fresh_ctx :: ctx2d where
  "fresh_ctx = \<lparr>transform = identity, fillStyle = ''#000000'', pixels = []\<rparr>"

text \<open>
  The context methods the player calls. Each one returns without effect when an argument
  is infinite or NaN, as the canvas API specifies. \<^verbatim>\<open>clearRect\<close> under the identity
  transform over the whole buffer (of size \<open>bw\<close> by \<open>bh\<close>) empties the buffer.
\<close>

definition setTransform ::
  "jsnum \<Rightarrow> jsnum \<Rightarrow> jsnum \<Rightarrow> jsnum \<Rightarrow> jsnum \<Rightarrow> jsnum \<Rightarrow> ctx2d \<Rightarrow> ctx2d" where
  "setTransform a b c d e f cx =
     (if isFinite a \<and> isFinite b \<and> isFinite c \<and> isFinite d \<and> isFinite e \<and> isFinite f
      then cx\<lparr>transform := Matrix a b c d e f\<rparr> else cx)"

definition clearRect ::
  "nat \<Rightarrow> nat \<Rightarrow> jsnum \<Rightarrow> jsnum \<Rightarrow> jsnum \<Rightarrow> jsnum \<Rightarrow> ctx2d \<Rightarrow> ctx2d" where
  "clearRect bw bh x y w h cx =
     (if isFinite x \<and> isFinite y \<and> isFinite w \<and> isFinite h
      then (if transform cx = identity \<and> x = Num 0 \<and> y = Num 0
               \<and> w = Num (real bw) \<and> h = Num (real bh)
            then cx\<lparr>pixels := []\<rparr>
            else cx\<lparr>pixels := pixels cx @ [Cleared (transform cx) x y w h]\<rparr>)
      else cx)"

definition fillRect :: "jsnum \<Rightarrow> jsnum \<Rightarrow> jsnum \<Rightarrow> jsnum \<Rightarrow> ctx2d \<Rightarrow> ctx2d" where
  "fillRect x y w h cx =
     (if isFinite x \<and> isFinite y \<and> isFinite w \<and> isFinite h
      then cx\<lparr>pixels := pixels cx @ [Filled (fillStyle cx) (transform cx) x y w h]\<rparr>
      else cx)"

definition scale :: "jsnum \<Rightarrow> jsnum \<Rightarrow> ctx2d \<Rightarrow> ctx2d" where
  "scale sx sy cx =
     (if isFinite sx \<and> isFinite sy
      then cx\<lparr>transform := Scaled (transform cx) sx sy\<rparr> else cx)"

definition drawImage :: "img \<Rightarrow> jsnum \<Rightarrow> jsnum \<Rightarrow> jsnum \<Rightarrow> jsnum \<Rightarrow> ctx2d \<Rightarrow> ctx2d" where
  "drawImage im dx dy dw dh cx =
     (if isFinite dx \<and> isFinite dy \<and> isFinite dw \<and> isFinite dh
      then cx\<lparr>pixels := pixels cx @ [Drawn im (transform cx) dx dy dw dh]\<rparr>
      else cx)"

text \<open>
  A DOM element as far as the player writes to it: its class list and the three inline
  style properties that are assigned.
\<close>

datatype css = Unset | Lit string | Px jsnum | Percent jsnum

record element =
  classList :: "string set"
  style_width :: css
  style_position :: css
  style_top :: css

text \<open>
  What a handler reads from the browser when it runs: the window, the layout box of the
  canvas, and the hero container (\<^verbatim>\<open>getBoundingClientRect().top\<close> and
  \<^verbatim>\<open>offsetHeight\<close>), absent when \<^verbatim>\<open>getElementById('home')\<close> found nothing.
\<close>

record env =
  innerWidth :: jsnum
  innerHeight :: jsnum
  devicePixelRatio :: jsnum
  clientWidth :: jsnum
  clientHeight :: jsnum
  hero :: "(jsnum \<times> jsnum) option"

section \<open>The player: \<^verbatim>\<open>ScrollFrameAnimation\<close>\<close>

text \<open>
  The fields of the class, the elements it looked up (each may be missing, except the
  canvas, without which the constructor throws and there is no player), the buffer size
  of the canvas, the element \<^verbatim>\<open>.hero-overlay\<close> and the preloader, the number of pending
  \<^verbatim>\<open>setTimeout\<close> callbacks that hide the preloader, and the frame numbers passed to
  \<^verbatim>\<open>console.warn\<close>.
\<close>

record player =
  ctx :: "ctx2d option"
  canvas_width :: nat
  canvas_height :: nat
  contentWrapper :: "element option"
  scrollIndicator :: "element option"
  progressBar :: "element option"
  scrollProgress :: "element option"
  heroOverlay :: "element option"
  preloader :: "element option"
  images :: "nat \<Rightarrow> img option"
  loadedCount :: nat
  currentFrame :: jsnum
  isLoaded :: bool
  isAnimationComplete :: bool
  displayWidth :: jsnum
  displayHeight :: jsnum
  dpr :: jsnum
  pendingHide :: nat
  warnings :: "nat list"

datatype js_error = TypeError

definition frameCount :: nat where
  "frameCount = 192"

text \<open>\<^verbatim>\<open>this.images[k]\<close> for a number \<open>k\<close>: defined only at an index that was assigned.\<close>

fun images_at :: "(nat \<Rightarrow> img option) \<Rightarrow> jsnum \<Rightarrow> img option" where
  "images_at m (Num a) = (if 0 \<le> a \<and> a = of_int \<lfloor>a\<rfloor> then m (nat \<lfloor>a\<rfloor>) else None)"
| "images_at m _ = None"

subsection \<open>\<^verbatim>\<open>drawFrame\<close>\<close>

text \<open>The cover fit of lines 144 to 163: \<open>(drawWidth, drawHeight, offsetX, offsetY)\<close>.\<close>

definition coverFit :: "jsnum \<Rightarrow> jsnum \<Rightarrow> jsnum \<Rightarrow> jsnum \<Rightarrow> jsnum \<times> jsnum \<times> jsnum \<times> jsnum" where
  "coverFit imgW imgH canvasWidth canvasHeight =
     (let imgAspect = jdiv imgW imgH;
          canvasAspect = jdiv canvasWidth canvasHeight;
          (drawWidth, drawHeight) =
            (if jgt canvasAspect imgAspect
             then (canvasWidth, jdiv canvasWidth imgAspect)
             else (jmul canvasHeight imgAspect, canvasHeight));
          offsetX = jdiv (jsub canvasWidth drawWidth) (Num 2);
          offsetY = jdiv (jsub canvasHeight drawHeight) (Num 2)
      in (drawWidth, drawHeight, offsetX, offsetY))"

definition drawFrame :: "env \<Rightarrow> jsnum \<Rightarrow> player \<Rightarrow> player" where
  "drawFrame ev frameIndex s =
     (case images_at (images s) frameIndex of
        None \<Rightarrow> s
      | Some im \<Rightarrow>
         (case ctx s of
            None \<Rightarrow> s
          | Some c0 \<Rightarrow>
             let dpr' = jor (dpr s) (jor (devicePixelRatio ev) (Num 1));
                 canvasWidth = jor (displayWidth s) (innerWidth ev);
                 canvasHeight = jor (displayHeight s) (innerHeight ev);
                 bw = Num (real (canvas_width s));
                 bh = Num (real (canvas_height s));
                 c1 = setTransform (Num 1) (Num 0) (Num 0) (Num 1) (Num 0) (Num 0) c0;
                 c2 = clearRect (canvas_width s) (canvas_height s) (Num 0) (Num 0) bw bh c1;
                 c3 = c2\<lparr>fillStyle := ''#0f0f0f''\<rparr>;
                 c4 = fillRect (Num 0) (Num 0) bw bh c3;
                 c5 = scale dpr' dpr' c4
             in if \<not> truthy (Num (real (img_width im))) \<or> \<not> truthy (Num (real (img_height im)))
                then s\<lparr>ctx := Some c5\<rparr>
                else
                  (case coverFit (Num (real (img_width im))) (Num (real (img_height im)))
                          canvasWidth canvasHeight of
                     (drawWidth, drawHeight, offsetX, offsetY) \<Rightarrow>
                       s\<lparr>ctx := Some (drawImage im offsetX offsetY drawWidth drawHeight c5)\<rparr>)))"

subsection \<open>\<^verbatim>\<open>setupCanvas\<close>: the resize handler\<close>

text \<open>
  Assigning \<^verbatim>\<open>canvas.width\<close> or \<^verbatim>\<open>canvas.height\<close> converts the number to an unsigned
  32 bit integer (NaN and the infinities to 0, truncation, modulo \<open>2 ^ 32\<close>), falls back
  to the attribute's default beyond \<open>2 ^ 31 - 1\<close>, and resets the context and its bitmap.
\<close>

fun toUint32 :: "jsnum \<Rightarrow> nat" where
  "toUint32 (Num a) = nat ((if 0 \<le> a then \<lfloor>a\<rfloor> else \<lceil>a\<rceil>) mod 2 ^ 32)"
| "toUint32 _ = 0"

definition reflectDim :: "nat \<Rightarrow> jsnum \<Rightarrow> nat" where
  "reflectDim dflt v = (let n = toUint32 v in if n \<le> 2147483647 then n else dflt)"

definition resize :: "env \<Rightarrow> player \<Rightarrow> player" where
  "resize ev s =
     (let displayWidth' = jor (clientWidth ev) (innerWidth ev);
          displayHeight' = jor (clientHeight ev) (innerHeight ev);
          dpr' = jor (devicePixelRatio ev) (Num 1);
          s1 = s\<lparr>canvas_width := reflectDim 300 (jmul displayWidth' dpr'),
                 ctx := map_option (\<lambda>_. fresh_ctx) (ctx s)\<rparr>;
          s2 = s1\<lparr>canvas_height := reflectDim 150 (jmul displayHeight' dpr'),
                  ctx := map_option (\<lambda>_. fresh_ctx) (ctx s1)\<rparr>;
          s3 = s2\<lparr>displayWidth := displayWidth', displayHeight := displayHeight', dpr := dpr'\<rparr>
      in if isLoaded s3 \<and> images_at (images s3) (currentFrame s3) \<noteq> None
         then drawFrame ev (currentFrame s3) s3 else s3)"

subsection \<open>\<^verbatim>\<open>preloadImages\<close>: the decode callbacks\<close>

text \<open>\<^verbatim>\<open>firstImage.onload\<close> (lines 79 to 82).\<close>

definition firstImage_onload :: "env \<Rightarrow> img \<Rightarrow> player \<Rightarrow> player" where
  "firstImage_onload ev im s = drawFrame ev (Num 0) (s\<lparr>images := (images s)(0 \<mapsto> im)\<rparr>)"

text \<open>
  \<^verbatim>\<open>img.onload\<close> of the loop, for index \<open>i\<close> (lines 89 to 107). The timeout that hides the
  preloader is counted in \<open>pendingHide\<close> when it is scheduled.
\<close>

definition img_onload :: "env \<Rightarrow> nat \<Rightarrow> img \<Rightarrow> player \<Rightarrow> player" where
  "img_onload ev i im s =
     (let s1 = s\<lparr>images := (images s)(i \<mapsto> im), loadedCount := loadedCount s + 1\<rparr>
      in if loadedCount s1 = frameCount
         then (let s2 = drawFrame ev (Num 0) (s1\<lparr>isLoaded := True\<rparr>)
               in s2\<lparr>pendingHide := pendingHide s2 + 1\<rparr>)
         else s1)"

text \<open>\<^verbatim>\<open>img.onerror\<close> of the loop, for index \<open>i\<close> (lines 109 to 112).\<close>

definition img_onerror :: "nat \<Rightarrow> player \<Rightarrow> player" where
  "img_onerror i s = s\<lparr>warnings := warnings s @ [i + 1], loadedCount := loadedCount s + 1\<rparr>"

text \<open>The callback given to \<^verbatim>\<open>setTimeout\<close> (lines 101 to 105), when it runs.\<close>

definition hidePreloader :: "player \<Rightarrow> player" where
  "hidePreloader s =
     s\<lparr>preloader := map_option (\<lambda>e. e\<lparr>classList := insert ''hidden'' (classList e)\<rparr>) (preloader s),
       pendingHide := pendingHide s - 1\<rparr>"

subsection \<open>\<^verbatim>\<open>handleScroll\<close>\<close>

definition progress :: "jsnum \<Rightarrow> jsnum \<Rightarrow> jsnum \<Rightarrow> jsnum" where
  "progress rectTop heroHeight viewportHeight =
     (let scrolled = jneg rectTop;
          maxScroll = jsub heroHeight viewportHeight
      in jmin (jmax (jdiv scrolled maxScroll) (Num 0)) (Num 1))"

definition targetFrame :: "jsnum \<Rightarrow> jsnum" where
  "targetFrame p = jfloor (jmul p (jsub (Num (real frameCount)) (Num 1)))"

definition newFrame :: "jsnum \<Rightarrow> jsnum" where
  "newFrame p = jmin (jmax (targetFrame p) (Num 0)) (jsub (Num (real frameCount)) (Num 1))"

text \<open>Lines 203 to 206: the frame is changed only when the new slot holds an image.\<close>

definition showFrame :: "env \<Rightarrow> jsnum \<Rightarrow> player \<Rightarrow> player" where
  "showFrame ev nf s =
     (if jsne nf (currentFrame s) \<and> images_at (images s) nf \<noteq> None
      then drawFrame ev nf (s\<lparr>currentFrame := nf\<rparr>) else s)"

text \<open>Lines 208 to 229: progress bar, its visibility, the fade of content and indicator.\<close>

definition setClass :: "bool \<Rightarrow> string \<Rightarrow> element \<Rightarrow> element" where
  "setClass on c e = e\<lparr>classList := (if on then insert c (classList e) else classList e - {c})\<rparr>"

definition updateIndicators :: "jsnum \<Rightarrow> player \<Rightarrow> player" where
  "updateIndicators p s =
     s\<lparr>progressBar :=
         map_option (\<lambda>e. e\<lparr>style_width := Percent (jmul p (Num 100))\<rparr>) (progressBar s),
       scrollProgress :=
         map_option (setClass (jgt p (Num 0) \<and> jlt p (Num 1)) ''visible'') (scrollProgress s),
       contentWrapper :=
         map_option (setClass (jgt p (Num (rnd (5 / 100)))) ''fade-out'') (contentWrapper s),
       scrollIndicator :=
         map_option (setClass (jgt p (Num (rnd (5 / 100)))) ''hidden'') (scrollIndicator s)\<rparr>"

text \<open>Lines 231 to 255: the positioning of the overlay and of the content wrapper.\<close>

definition place :: "jsnum \<Rightarrow> jsnum \<Rightarrow> jsnum \<Rightarrow> element \<Rightarrow> element" where
  "place p heroHeight viewportHeight e =
     (if jge p (Num 1)
      then e\<lparr>style_position := Lit ''absolute'',
             style_top := Px (jsub heroHeight viewportHeight)\<rparr>
      else e\<lparr>style_position := Lit ''fixed'', style_top := Lit ''0''\<rparr>)"

definition updateOverlay :: "jsnum \<Rightarrow> jsnum \<Rightarrow> jsnum \<Rightarrow> player \<Rightarrow> player" where
  "updateOverlay p heroHeight viewportHeight s =
     (case heroOverlay s of
        None \<Rightarrow> s
      | Some e \<Rightarrow>
          s\<lparr>isAnimationComplete := jge p (Num 1),
            heroOverlay := Some (place p heroHeight viewportHeight e)\<rparr>)"

definition updateWrapper :: "jsnum \<Rightarrow> jsnum \<Rightarrow> jsnum \<Rightarrow> player \<Rightarrow> player" where
  "updateWrapper p heroHeight viewportHeight s =
     s\<lparr>contentWrapper := map_option (place p heroHeight viewportHeight) (contentWrapper s)\<rparr>"

text \<open>
  The handler. Reading the rectangle of a missing hero container throws a
  \<^verbatim>\<open>TypeError\<close>, after the \<^verbatim>\<open>isLoaded\<close> test and before any assignment.
\<close>

definition handleScroll :: "env \<Rightarrow> player \<Rightarrow> js_error + player" where
  "handleScroll ev s =
     (if \<not> isLoaded s then Inr s
      else
        (case hero ev of
           None \<Rightarrow> Inl TypeError
         | Some (rectTop, heroHeight) \<Rightarrow>
             let viewportHeight = innerHeight ev;
                 p = progress rectTop heroHeight viewportHeight
             in Inr (updateWrapper p heroHeight viewportHeight
                      (updateOverlay p heroHeight viewportHeight
                        (updateIndicators p
                          (showFrame ev (newFrame p) s))))))"

subsection \<open>The constructor and the events of a page\<close>

text \<open>
  The constructor: \<open>page\<close> gives the elements found in the document and whether
  \<^verbatim>\<open>getContext('2d')\<close> returned a context; the fields are initialised, \<^verbatim>\<open>setupCanvas\<close>
  runs the resize handler once, \<^verbatim>\<open>preloadImages\<close> and \<^verbatim>\<open>bindEvents\<close> register the
  callbacks that \<open>step\<close> runs.
\<close>

definition constructor :: "env \<Rightarrow> player \<Rightarrow> player" where
  "constructor ev page =
     resize ev (page\<lparr>ctx := map_option (\<lambda>_. fresh_ctx) (ctx page),
                     images := Map.empty, loadedCount := 0, currentFrame := Num 0,
                     isLoaded := False, isAnimationComplete := False,
                     pendingHide := 0, warnings := []\<rparr>)"

datatype event =
    FirstImageLoad img
  | ImageLoad nat img
  | ImageError nat
  | Resize
  | Scroll
  | HideTimeout

text \<open>
  One callback run by the event loop; the page is single-threaded, so callbacks run one
  after the other, in any order. The loop of \<^verbatim>\<open>preloadImages\<close> registers callbacks
  for the indices below \<open>frameCount\<close> only. The scroll listener of \<^verbatim>\<open>bindEvents\<close> runs
  \<^verbatim>\<open>handleScroll\<close> at most once per animation frame: a \<open>Scroll\<close> event is one such
  run. An exception thrown by the scroll handler ends that handler and leaves the player
  as it was.
\<close>

definition step :: "env \<Rightarrow> event \<Rightarrow> player \<Rightarrow> player" where
  "step ev e s =
     (case e of
        FirstImageLoad im \<Rightarrow> firstImage_onload ev im s
      | ImageLoad i im \<Rightarrow> (if i < frameCount then img_onload ev i im s else s)
      | ImageError i \<Rightarrow> (if i < frameCount then img_onerror i s else s)
      | Resize \<Rightarrow> resize ev s
      | Scroll \<Rightarrow> (case handleScroll ev s of Inl _ \<Rightarrow> s | Inr s' \<Rightarrow> s')
      | HideTimeout \<Rightarrow> (if 0 < pendingHide s then hidePreloader s else s))"

fun run :: "(env \<times> event) list \<Rightarrow> player \<Rightarrow> player" where
  "run [] s = s"
| "run ((ev, e) # es) s = run es (step ev e s)"

inductive reachable :: "player \<Rightarrow> bool" where
  reach_start: "reachable (constructor ev page)"
| reach_step: "reachable s \<Longrightarrow> reachable (step ev e s)"

subsection \<open>A concrete page\<close>

text \<open>
  A document with every element the player looks up, in a window of 1280 by 800 CSS
  pixels at density 1, with a hero container of height \<open>h\<close> whose top edge is at \<open>t\<close>.
\<close>

definition blank :: element where
  "blank = \<lparr>classList = {}, style_width = Unset, style_position = Unset, style_top = Unset\<rparr>"

definition page0 :: player where
  "page0 = \<lparr>ctx = Some fresh_ctx, canvas_width = 300, canvas_height = 150,
     contentWrapper = Some blank, scrollIndicator = Some blank, progressBar = Some blank,
     scrollProgress = Some blank, heroOverlay = Some blank, preloader = Some blank,
     images = Map.empty, loadedCount = 0, currentFrame = Num 0, isLoaded = False,
     isAnimationComplete = False, displayWidth = Num 0, displayHeight = Num 0,
     dpr = Num 0, pendingHide = 0, warnings = []\<rparr>"

definition env_at :: "real \<Rightarrow> real \<Rightarrow> env" where
  "env_at t h = \<lparr>innerWidth = Num 1280, innerHeight = Num 800, devicePixelRatio = Num 1,
     clientWidth = Num 1280, clientHeight = Num 800, hero = Some (Num t, Num h)\<rparr>"

definition frame :: "nat \<Rightarrow> img" where
  "frame i = \<lparr>img_frame = i, img_width = 1920, img_height = 1080\<rparr>"

text \<open>Schedules of decode callbacks: the frames \<open>ks\<close> decode, in that order.\<close>

definition loads :: "env \<Rightarrow> nat list \<Rightarrow> (env \<times> event) list" where
  "loads ev ks = map (\<lambda>i. (ev, ImageLoad i (frame i))) ks"

text \<open>
  \<open>callback e\<close>: \<open>e\<close> is a decode callback the loop of \<^verbatim>\<open>preloadImages\<close> registered;
  \<open>callback_index\<close> is the frame it belongs to, \<open>success\<close> tells \<^verbatim>\<open>onload\<close> from
  \<^verbatim>\<open>onerror\<close>.
\<close>

fun callback :: "event \<Rightarrow> bool" where
  "callback (ImageLoad i im) = (i < frameCount)"
| "callback (ImageError i) = (i < frameCount)"
| "callback _ = False"

fun callback_index :: "event \<Rightarrow> nat" where
  "callback_index (ImageLoad i im) = i"
| "callback_index (ImageError i) = i"
| "callback_index _ = 0"

fun success :: "event \<Rightarrow> bool" where
  "success (ImageLoad i im) = True"
| "success _ = False"

text \<open>
  Players used as examples: \<open>ready_page\<close> is the page above after all 192 frames
  decoded in order; \<open>flat_page\<close> is the page after frame 0 alone decoded, to an image
  that reports a width of zero.
\<close>

definition e0 :: env where
  "e0 = env_at 0 1056"

definition ready_page :: player where
  "ready_page = run (loads e0 [0..<frameCount]) (constructor e0 page0)"

definition flat :: img where
  "flat = \<lparr>img_frame = 0, img_width = 0, img_height = 1080\<rparr>"

definition flat_page :: player where
  "flat_page = step e0 (ImageLoad 0 flat) (constructor e0 page0)"

text \<open>
  Further schedules and players used as examples. In \<open>failure_last\<close> every frame but
  frame 50 decodes, and the error callback of frame 50 comes last. In \<open>gap50\<close> the error
  callback of frame 50 comes first and every other frame decodes after it; \<open>gap_page\<close>
  is the player after that. With a hero container of 1056 pixels in a viewport of 800,
  the top offsets \<open>-66\<close>, \<open>-68\<close> and \<open>-69\<close> are the scroll positions of the frames 49, 50
  and 51: \<open>from_below\<close> and \<open>from_above\<close> both end at the position of frame 50, coming
  from the position of frame 49 and of frame 51.
\<close>

definition failure_last :: "env \<Rightarrow> (env \<times> event) list" where
  "failure_last ev = loads ev ([0..<50] @ [51..<frameCount]) @ [(ev, ImageError 50)]"

definition gap50 :: "(env \<times> event) list" where
  "gap50 = (e0, ImageError 50) # loads e0 ([0..<50] @ [51..<frameCount])"

definition gap_page :: player where
  "gap_page = run gap50 (constructor e0 page0)"

definition from_below :: player where
  "from_below = run [(env_at (- 66) 1056, Scroll), (env_at (- 68) 1056, Scroll)] gap_page"

definition from_above :: player where
  "from_above = run [(env_at (- 69) 1056, Scroll), (env_at (- 68) 1056, Scroll)] gap_page"

text \<open>
  The invariant of the displayed frame: \<open>currentFrame\<close> is still 0, or it is an index
  below \<open>frameCount\<close> whose slot holds an image.
\<close>

definition shown :: "player \<Rightarrow> bool" where
  "shown s = (currentFrame s = Num 0 \<or>
              (\<exists>k<frameCount. currentFrame s = Num (real k) \<and> images s k \<noteq> None))"

text \<open>
  What is on the canvas. \<open>surface\<close> collects what a rendering depends on besides the
  image: the logical size, the density factor, the buffer size, and whether there is a
  context at all. \<open>holds_frame ev k s\<close>: the canvas of \<open>s\<close> holds the rendering of frame
  \<open>k\<close>, that is, drawing frame \<open>k\<close> again would leave the context as it is.
  \<open>canvas_image\<close> is the image drawn last on the canvas, if any.
\<close>

definition surface :: "player \<Rightarrow> jsnum \<times> jsnum \<times> jsnum \<times> nat \<times> nat \<times> bool" where
  "surface s = (displayWidth s, displayHeight s, dpr s, canvas_width s, canvas_height s,
                ctx s = None)"

definition holds_frame :: "env \<Rightarrow> jsnum \<Rightarrow> player \<Rightarrow> bool" where
  "holds_frame ev k s = (ctx (drawFrame ev k s) = ctx s)"

fun top_image :: "paint list \<Rightarrow> img option" where
  "top_image [] = None"
| "top_image (p # ps) =
     (case top_image ps of
        Some im \<Rightarrow> Some im
      | None \<Rightarrow> (case p of Drawn im _ _ _ _ _ \<Rightarrow> Some im | _ \<Rightarrow> None))"

definition canvas_image :: "player \<Rightarrow> img option" where
  "canvas_image s = (case ctx s of None \<Rightarrow> None | Some c \<Rightarrow> top_image (pixels c))"

text \<open>
  Two more histories, on the page where every frame decoded. The first image, requested
  apart from the loop (lines 77 to 82), decodes late, after the player is ready and a
  first scroll evaluation; both histories end with a scroll evaluation at the position
  of frame 50. In \<open>late_first_same\<close> the earlier scroll evaluation was at that same
  position, in \<open>late_first_moved\<close> it was at the position of frame 49.
\<close>

definition late_first_same :: player where
  "late_first_same =
     run [(env_at (- 68) 1056, Scroll), (e0, FirstImageLoad (frame 0)),
          (env_at (- 68) 1056, Scroll)] ready_page"

definition late_first_moved :: player where
  "late_first_moved =
     run [(env_at (- 66) 1056, Scroll), (e0, FirstImageLoad (frame 0)),
          (env_at (- 68) 1056, Scroll)] ready_page"

section \<open>Properties\<close>

subsection \<open>Rounding to binary64\<close>

text \<open>The exponent found by \<open>ilog2\<close> is the binary exponent.\<close>

lemma ilog2_floorlog:
  "ilog2 x = (if 1 \<le> x then int (floorlog 2 (nat \<lfloor>x\<rfloor>)) - 1
              else - int (floorlog 2 (nat (\<lceil>1 / x\<rceil> - 1))))"
  by (simp add: ilog2_def bitlen_def)

lemma nat_bounds:
  fixes n :: nat
  assumes "0 < n"
  shows "real (2 ^ (floorlog 2 n - 1)) \<le> real n" and "real n + 1 \<le> real (2 ^ floorlog 2 n)"
    and "0 < floorlog 2 n"
proof -
  from floorlog_bounds [of n 2] assms
  have a: "2 ^ (floorlog 2 n - 1) \<le> n" and b: "n < 2 ^ floorlog 2 n" by auto
  from a show "real (2 ^ (floorlog 2 n - 1)) \<le> real n" by (simp only: of_nat_le_iff)
  from b have "n + 1 \<le> 2 ^ floorlog 2 n" by simp
  then have "real (n + 1) \<le> real (2 ^ floorlog 2 n)" by (simp only: of_nat_le_iff)
  then show "real n + 1 \<le> real (2 ^ floorlog 2 n)" by simp
  show "0 < floorlog 2 n" using assms by (simp add: floorlog_def)
qed

lemma ilog2_bounds:
  assumes "0 < x"
  shows "2 powi (ilog2 x) \<le> x" and "x < 2 powi (ilog2 x + 1)"
proof -
  have "2 powi (ilog2 x) \<le> x \<and> x < 2 powi (ilog2 x + 1)"
  proof (cases "1 \<le> x")
    case True
    define n where "n = nat \<lfloor>x\<rfloor>"
    define f where "f = floorlog 2 n"
    have n: "0 < n" "real n \<le> x" "x < real n + 1"
      using True by (auto simp add: n_def)
    note b = nat_bounds [OF n(1), folded f_def]
    have e: "ilog2 x = int (f - 1)" using True b(3) by (simp add: ilog2_floorlog n_def f_def)
    have e1: "ilog2 x + 1 = int f" using e b(3) by simp
    have "2 powi (ilog2 x) = real (2 ^ (f - 1))" unfolding e by simp
    moreover have "2 powi (ilog2 x + 1) = real (2 ^ f)" unfolding e1 by simp
    ultimately show ?thesis using b n by linarith
  next
    case False
    define y where "y = 1 / x"
    define n where "n = nat (\<lceil>y\<rceil> - 1)"
    define f where "f = floorlog 2 n"
    have y: "1 < y" using False assms by (simp add: y_def)
    then have c: "2 \<le> \<lceil>y\<rceil>" by linarith
    have n: "0 < n" "real n < y" "y \<le> real n + 1"
      using c by (auto simp add: n_def) linarith+
    note b = nat_bounds [OF n(1), folded f_def]
    have e: "ilog2 x = - int f" using False by (simp add: ilog2_floorlog n_def f_def y_def)
    have e1: "ilog2 x + 1 = - int (f - 1)" using e b(3) by simp
    have p: "(2::real) powi (ilog2 x) = 1 / real (2 ^ f)"
      unfolding e by (simp add: power_int_minus field_simps)
    have p1: "(2::real) powi (ilog2 x + 1) = 1 / real (2 ^ (f - 1))"
      unfolding e1 by (simp add: power_int_minus field_simps)
    have x: "x = 1 / y" using assms by (simp add: y_def)
    have "y \<le> real (2 ^ f)" using b n by linarith
    then have "1 / real (2 ^ f) \<le> 1 / y" using y by (intro divide_left_mono) auto
    moreover have "real (2 ^ (f - 1)) < y" using b n by linarith
    then have "1 / y < 1 / real (2 ^ (f - 1))"
      using y by (intro divide_strict_left_mono mult_pos_pos) auto
    ultimately have "1 / real (2 ^ f) \<le> x" and "x < 1 / real (2 ^ (f - 1))"
      using x by simp_all
    then show ?thesis by (simp only: p p1)
  qed
  then show "2 powi (ilog2 x) \<le> x" and "x < 2 powi (ilog2 x + 1)" by simp_all
qed

lemma powi2_mono: "a \<le> b \<Longrightarrow> (2::real) powi a \<le> 2 powi b"
  by (rule power_int_increasing) simp_all

lemma powi2_less_imp: "(2::real) powi a < 2 powi b \<Longrightarrow> a < b"
  using powi2_mono [of b a] by (cases "a < b") auto

lemma ilog2_mono:
  assumes "0 < x" and "x \<le> y"
  shows "ilog2 x \<le> ilog2 y"
proof -
  have "2 powi (ilog2 x) \<le> x" using ilog2_bounds(1) [OF assms(1)] .
  also have "x \<le> y" by fact
  also have "y < 2 powi (ilog2 y + 1)" using ilog2_bounds(2) [of y] assms by simp
  finally have "ilog2 x < ilog2 y + 1" by (rule powi2_less_imp)
  then show ?thesis by simp
qed


text \<open>Rounding to the nearest integer.\<close>

lemma rne_cases:
  "rne r = \<lfloor>r\<rfloor> \<or> rne r = \<lfloor>r\<rfloor> + 1"
  by (simp add: rne_def Let_def)


lemma rne_int: "rne (of_int n) = n"
  by (simp add: rne_def)

lemma rne_mono:
  assumes "r \<le> s"
  shows "rne r \<le> rne s"
proof (cases "\<lfloor>r\<rfloor> = \<lfloor>s\<rfloor>")
  case True
  with assms show ?thesis by (auto simp add: rne_def Let_def)
next
  case False
  with assms have "\<lfloor>r\<rfloor> + 1 \<le> \<lfloor>s\<rfloor>" using floor_mono [OF assms] by linarith
  moreover have "rne r \<le> \<lfloor>r\<rfloor> + 1" using rne_cases [of r] by auto
  moreover have "\<lfloor>s\<rfloor> \<le> rne s" using rne_cases [of s] by auto
  ultimately show ?thesis by linarith
qed

text \<open>Rounding is odd, monotone, exact on the values it produces, and close.\<close>

lemma rnd_0: "rnd 0 = 0"
  by (simp add: rnd_def)

lemma rnd_minus: "rnd (- x) = - rnd x"
  by (simp add: rnd_def Let_def sgn_minus)

lemma rnd_pos:
  assumes "0 < x"
  shows "rnd x = of_int (rne (x / 2 powi (max (ilog2 x) (- 1022) - 52)))
                 * 2 powi (max (ilog2 x) (- 1022) - 52)"
  using assms by (simp add: rnd_def Let_def)


lemma powi2_split: "(2::real) powi (e + 1) = 2 ^ 53 * 2 powi (e - 52)"
proof -
  have "e + 1 = 53 + (e - 52)" by simp
  then have "(2::real) powi (e + 1) = 2 powi (53 + (e - 52))" by (rule arg_cong)
  also have "\<dots> = 2 powi 53 * 2 powi (e - 52)" by (rule power_int_add) simp
  also have "(2::real) powi 53 = 2 ^ 53" by (simp add: power_int_def)
  finally show ?thesis .
qed

lemma powi2_split': "(2::real) powi e = 2 ^ 52 * 2 powi (e - 52)"
proof -
  have "e = 52 + (e - 52)" by simp
  then have "(2::real) powi e = 2 powi (52 + (e - 52))" by (rule arg_cong)
  also have "\<dots> = 2 powi 52 * 2 powi (e - 52)" by (rule power_int_add) simp
  also have "(2::real) powi 52 = 2 ^ 52" by (simp add: power_int_def)
  finally show ?thesis .
qed

text \<open>The scaled significand of a positive number.\<close>

lemma scaled_upper:
  assumes "0 < x"
  shows "x / 2 powi (max (ilog2 x) (- 1022) - 52) < 2 ^ 53"
proof -
  define E where "E = max (ilog2 x) (- 1022)"
  have "x < 2 powi (ilog2 x + 1)" using ilog2_bounds(2) [OF assms] .
  also have "\<dots> \<le> 2 powi (E + 1)" by (rule powi2_mono) (simp add: E_def)
  also have "\<dots> = 2 ^ 53 * 2 powi (E - 52)" by (rule powi2_split)
  finally show ?thesis unfolding E_def [symmetric]
    by (simp add: pos_divide_less_eq)
qed

lemma scaled_lower:
  assumes "0 < x" and "- 1022 \<le> ilog2 x"
  shows "2 ^ 52 \<le> x / 2 powi (max (ilog2 x) (- 1022) - 52)"
proof -
  have E: "max (ilog2 x) (- 1022) = ilog2 x" using assms(2) by simp
  have "(2::real) ^ 52 * 2 powi (ilog2 x - 52) = 2 powi (ilog2 x)"
    by (rule powi2_split' [symmetric])
  also have "\<dots> \<le> x" using ilog2_bounds(1) [OF assms(1)] .
  finally show ?thesis unfolding E by (simp add: pos_le_divide_eq)
qed

lemma rne_nonneg: "0 \<le> r \<Longrightarrow> 0 \<le> rne r"
  using rne_mono [of 0 r] by (simp add: rne_def)

lemma rne_le_int: "r \<le> of_int n \<Longrightarrow> rne r \<le> n"
  using rne_mono [of r "of_int n"] by (simp add: rne_int)

lemma rne_ge_int: "of_int n \<le> r \<Longrightarrow> n \<le> rne r"
  using rne_mono [of "of_int n" r] by (simp add: rne_int)

lemma rnd_nonneg:
  assumes "0 \<le> x"
  shows "0 \<le> rnd x"
proof (cases "x = 0")
  case True
  then show ?thesis by (simp add: rnd_0)
next
  case False
  with assms have pos: "0 < x" by simp
  have "0 \<le> rne (x / 2 powi (max (ilog2 x) (- 1022) - 52))"
    using pos by (intro rne_nonneg) simp
  then show ?thesis unfolding rnd_pos [OF pos] by simp
qed

lemma rnd_upper:
  assumes "0 < x"
  shows "rnd x \<le> 2 powi (max (ilog2 x) (- 1022) + 1)"
proof -
  define E where "E = max (ilog2 x) (- 1022)"
  have "x / 2 powi (E - 52) \<le> of_int (2 ^ 53)"
    using scaled_upper [OF assms] by (simp add: E_def)
  then have "rne (x / 2 powi (E - 52)) \<le> 2 ^ 53" by (rule rne_le_int)
  then have "(of_int (rne (x / 2 powi (E - 52))) :: real) \<le> of_int (2 ^ 53)"
    by (simp only: of_int_le_iff)
  then have "real_of_int (rne (x / 2 powi (E - 52))) * 2 powi (E - 52)
      \<le> 2 ^ 53 * 2 powi (E - 52)"
    by (intro mult_right_mono) simp_all
  then show ?thesis
    unfolding rnd_pos [OF assms] E_def [symmetric] powi2_split [symmetric] .
qed

lemma rnd_lower:
  assumes "0 < x" and "- 1022 \<le> ilog2 x"
  shows "2 powi (ilog2 x) \<le> rnd x"
proof -
  have E: "max (ilog2 x) (- 1022) = ilog2 x" using assms(2) by simp
  have "of_int (2 ^ 52) \<le> x / 2 powi (ilog2 x - 52)"
    using scaled_lower [OF assms] by (simp add: E)
  then have "2 ^ 52 \<le> rne (x / 2 powi (ilog2 x - 52))" by (rule rne_ge_int)
  then have "(of_int (2 ^ 52) :: real) \<le> of_int (rne (x / 2 powi (ilog2 x - 52)))"
    by (simp only: of_int_le_iff)
  then have "2 ^ 52 * 2 powi (ilog2 x - 52)
      \<le> real_of_int (rne (x / 2 powi (ilog2 x - 52))) * 2 powi (ilog2 x - 52)"
    by (intro mult_right_mono) simp_all
  then show ?thesis
    unfolding rnd_pos [OF assms(1)] E powi2_split' [symmetric] .
qed

lemma rnd_mono_pos:
  assumes "0 < x" and "x \<le> y"
  shows "rnd x \<le> rnd y"
proof -
  have ypos: "0 < y" using assms by simp
  define Ex where "Ex = max (ilog2 x) (- 1022)"
  define Ey where "Ey = max (ilog2 y) (- 1022)"
  have le: "Ex \<le> Ey" using ilog2_mono [OF assms] by (simp add: Ex_def Ey_def)
  show ?thesis
  proof (cases "Ex = Ey")
    case True
    have "x / 2 powi (Ex - 52) \<le> y / 2 powi (Ex - 52)"
      using assms(2) by (simp add: divide_right_mono)
    then have "rne (x / 2 powi (Ex - 52)) \<le> rne (y / 2 powi (Ex - 52))" by (rule rne_mono)
    then have "(of_int (rne (x / 2 powi (Ex - 52))) :: real) \<le> of_int (rne (y / 2 powi (Ex - 52)))"
      by (simp only: of_int_le_iff)
    then have "real_of_int (rne (x / 2 powi (Ex - 52))) * 2 powi (Ex - 52)
        \<le> real_of_int (rne (y / 2 powi (Ex - 52))) * 2 powi (Ex - 52)"
      by (intro mult_right_mono) simp_all
    then show ?thesis
      unfolding rnd_pos [OF assms(1)] rnd_pos [OF ypos] Ex_def [symmetric] Ey_def [symmetric]
        True [symmetric] .
  next
    case False
    with le have lt: "Ex < Ey" by simp
    then have n: "- 1022 \<le> ilog2 y" and Ey: "Ey = ilog2 y" by (auto simp add: Ex_def Ey_def)
    have "rnd x \<le> 2 powi (Ex + 1)" using rnd_upper [OF assms(1)] by (simp add: Ex_def)
    also have "\<dots> \<le> 2 powi Ey" using lt by (intro powi2_mono) simp
    also have "\<dots> \<le> rnd y" unfolding Ey by (rule rnd_lower [OF ypos n])
    finally show ?thesis .
  qed
qed

lemma rnd_mono:
  assumes "x \<le> y"
  shows "rnd x \<le> rnd y"
proof -
  consider "0 < x" | "y < 0" | "x \<le> 0" "0 \<le> y" by linarith
  then show ?thesis
  proof cases
    case 1
    then show ?thesis using assms by (rule rnd_mono_pos)
  next
    case 2
    then have "rnd (- y) \<le> rnd (- x)" using assms by (intro rnd_mono_pos) simp_all
    then show ?thesis by (simp add: rnd_minus)
  next
    case 3
    have "0 \<le> rnd (- x)" using 3(1) by (intro rnd_nonneg) simp
    then have "rnd x \<le> 0" by (simp add: rnd_minus)
    also have "0 \<le> rnd y" using 3(2) by (rule rnd_nonneg)
    finally show ?thesis .
  qed
qed

lemma rnd_exact_pos:
  assumes "0 < m" and "m < 2 ^ 53" and "- 1074 \<le> k"
  shows "rnd (of_int m * 2 powi k) = of_int m * 2 powi k"
proof -
  define x :: real where "x = of_int m * 2 powi k"
  define E where "E = max (ilog2 x) (- 1022)"
  have pos: "0 < x" using assms(1) by (simp add: x_def)
  have "real_of_int m < of_int (2 ^ 53)" using assms(2) by (simp only: of_int_less_iff)
  then have "x < 2 ^ 53 * 2 powi k" by (simp add: x_def)
  also have "(2::real) ^ 53 * 2 powi k = 2 powi (k + 52 + 1)"
    using powi2_split [of "k + 52"] by (simp only: add_diff_cancel_right')
  finally have "x < 2 powi (k + 52 + 1)" .
  with ilog2_bounds(1) [OF pos] have "(2::real) powi (ilog2 x) < 2 powi (k + 52 + 1)" by linarith
  then have "ilog2 x < k + 52 + 1" by (rule powi2_less_imp)
  then have E: "E \<le> k + 52" using assms(3) by (simp add: E_def)
  define j where "j = nat (k + 52 - E)"
  have kj: "k = int j + (E - 52)" using E by (simp add: j_def)
  have "(2::real) powi k = 2 powi (int j + (E - 52))" using kj by (rule arg_cong)
  also have "\<dots> = 2 powi (int j) * 2 powi (E - 52)" by (rule power_int_add) simp
  finally have pk: "(2::real) powi k = 2 ^ j * 2 powi (E - 52)" by simp
  have "x / 2 powi (E - 52) = of_int (m * 2 ^ j)" by (simp add: x_def pk)
  then have "rne (x / 2 powi (E - 52)) = m * 2 ^ j" by (simp only: rne_int)
  then have "rnd x = of_int (m * 2 ^ j) * 2 powi (E - 52)"
    unfolding rnd_pos [OF pos] E_def [symmetric] by simp
  also have "\<dots> = x" by (simp add: x_def pk)
  finally show ?thesis unfolding x_def .
qed

lemma rnd_exact:
  assumes "0 \<le> m" and "m \<le> 2 ^ 53" and "- 1074 \<le> k"
  shows "rnd (of_int m * 2 powi k) = of_int m * 2 powi k"
proof -
  consider "m = 0" | "0 < m" "m < 2 ^ 53" | "m = 2 ^ 53" using assms by linarith
  then show ?thesis
  proof cases
    case 1
    then show ?thesis by (simp add: rnd_0)
  next
    case 2
    then show ?thesis using assms(3) by (rule rnd_exact_pos)
  next
    case 3
    have "(2::real) powi (k + 1) = 2 powi k * 2 powi 1" by (rule power_int_add) simp
    then have "real_of_int m * 2 powi k = of_int (2 ^ 52) * 2 powi (k + 1)"
      by (simp add: 3)
    moreover have "rnd (of_int (2 ^ 52) * 2 powi (k + 1)) = of_int (2 ^ 52) * 2 powi (k + 1)"
      using assms(3) by (intro rnd_exact_pos) simp_all
    ultimately show ?thesis by simp
  qed
qed





subsection \<open>What \<^verbatim>\<open>drawFrame\<close> may change\<close>

lemma drawFrame_ctx_only: "\<exists>c. drawFrame ev k s = s\<lparr>ctx := c\<rparr>"
proof (cases "images_at (images s) k")
  case None
  then have "drawFrame ev k s = s\<lparr>ctx := ctx s\<rparr>" by (simp add: drawFrame_def)
  then show ?thesis by blast
next
  case (Some im)
  show ?thesis
  proof (cases "ctx s")
    case None
    with Some have "drawFrame ev k s = s\<lparr>ctx := ctx s\<rparr>" by (simp add: drawFrame_def)
    then show ?thesis by blast
  next
    case (Some c0)
    with \<open>images_at (images s) k = Some im\<close> show ?thesis
      by (auto simp add: drawFrame_def Let_def split: prod.splits)
  qed
qed

lemma fl_0: "fl 0 = Num 0"
  by (simp add: fl_def rnd_def)

lemma constructor_not_loaded: "\<not> isLoaded (constructor ev page)"
  by (simp add: constructor_def resize_def Let_def)

subsection \<open>Scrolling while the frames load\<close>

text \<open>
  Claim C10. While \<open>isLoaded\<close> is false, a scroll evaluation changes nothing: the handler
  returns the player it was given (canvas, progress bar, indicator, fade classes and
  overlay included), and so does the event loop's step for a scroll event.
\<close>

theorem handleScroll_loading_noop:
  "\<not> isLoaded s \<Longrightarrow> handleScroll ev s = Inr s \<and> step ev Scroll s = s"
  by (simp add: handleScroll_def step_def)

theorem handleScroll_loading_noop_witness:
  "\<not> isLoaded (constructor (env_at 0 2400) page0) \<and>
   handleScroll (env_at (- 100) 2400) (constructor (env_at 0 2400) page0)
     = Inr (constructor (env_at 0 2400) page0)"
  using handleScroll_loading_noop [of "constructor (env_at 0 2400) page0" "env_at (- 100) 2400"]
  by (simp add: constructor_not_loaded)

subsection \<open>The progress value\<close>

text \<open>
  The clamp of line 194 gives a value of \<open>[0, 1]\<close> or NaN, and for finite measures NaN
  exactly when the top offset is zero and the difference of the two heights is zero: a
  negative or zero divisor is harmless otherwise.
\<close>

lemma clamp_unit:
  "jmin (jmax d (Num 0)) (Num 1) = NaN \<or>
   (\<exists>r. jmin (jmax d (Num 0)) (Num 1) = Num r \<and> 0 \<le> r \<and> r \<le> 1)"
  by (cases d) auto

lemma clamp_NaN: "jmin (jmax d (Num 0)) (Num 1) = NaN \<longleftrightarrow> d = NaN"
  by (cases d) auto

lemma progress_range:
  "progress t h v = NaN \<or> (\<exists>r. progress t h v = Num r \<and> 0 \<le> r \<and> r \<le> 1)"
  unfolding progress_def Let_def by (rule clamp_unit)

lemma fl_not_NaN: "fl x \<noteq> NaN"
  by (simp add: fl_def Let_def)

lemma fl_Num_iff: "fl x = Num r \<Longrightarrow> r = rnd x"
  by (auto simp add: fl_def Let_def split: if_splits)

lemma fl_Inf: "fl x = PosInf \<Longrightarrow> rnd x \<noteq> 0" "fl x = NegInf \<Longrightarrow> rnd x \<noteq> 0"
  by (auto simp add: fl_def Let_def split: if_splits)

lemma progress_NaN_iff:
  "progress (Num t) (Num h) (Num v) = NaN \<longleftrightarrow> t = 0 \<and> rnd (h - v) = 0"
proof -
  have "progress (Num t) (Num h) (Num v) = NaN \<longleftrightarrow> jdiv (Num (- t)) (fl (h - v)) = NaN"
    by (simp add: progress_def clamp_NaN)
  also have "\<dots> \<longleftrightarrow> t = 0 \<and> rnd (h - v) = 0"
  proof (cases "fl (h - v)")
    case (Num r)
    then have "r = rnd (h - v)" by (rule fl_Num_iff)
    with Num show ?thesis by (auto simp add: fl_not_NaN)
  next
    case PosInf
    then show ?thesis using fl_Inf(1) by auto
  next
    case NegInf
    then show ?thesis using fl_Inf(2) by auto
  next
    case NaN
    then show ?thesis by (simp add: fl_not_NaN)
  qed
  finally show ?thesis .
qed

text \<open>
  Claim C1. The progress is meant to lie in \<open>[0, 1]\<close> whatever the container and the
  viewport measure. With a hero container exactly as tall as the viewport (800 pixels)
  and its top edge at the top of the viewport, \<open>scrolled / maxScroll\<close> is \<open>0 / 0\<close>, and
  neither \<^verbatim>\<open>Math.max\<close> nor \<^verbatim>\<open>Math.min\<close> replaces the NaN: the progress is NaN.
\<close>

theorem progress_zero_by_zero:
  "progress (Num 0) (Num 800) (Num 800) = NaN"
  by (simp add: progress_def fl_0)

subsection \<open>Fields the handlers leave alone\<close>

lemma drawFrame_fields:
  "images (drawFrame ev k s) = images s"
  "loadedCount (drawFrame ev k s) = loadedCount s"
  "currentFrame (drawFrame ev k s) = currentFrame s"
  "isLoaded (drawFrame ev k s) = isLoaded s"
  "isAnimationComplete (drawFrame ev k s) = isAnimationComplete s"
  "pendingHide (drawFrame ev k s) = pendingHide s"
  "warnings (drawFrame ev k s) = warnings s"
  "heroOverlay (drawFrame ev k s) = heroOverlay s"
  "contentWrapper (drawFrame ev k s) = contentWrapper s"
  "scrollIndicator (drawFrame ev k s) = scrollIndicator s"
  "progressBar (drawFrame ev k s) = progressBar s"
  "scrollProgress (drawFrame ev k s) = scrollProgress s"
  "preloader (drawFrame ev k s) = preloader s"
  "canvas_width (drawFrame ev k s) = canvas_width s"
  "canvas_height (drawFrame ev k s) = canvas_height s"
  "displayWidth (drawFrame ev k s) = displayWidth s"
  "displayHeight (drawFrame ev k s) = displayHeight s"
  "dpr (drawFrame ev k s) = dpr s"
  using drawFrame_ctx_only [of ev k s] by auto

lemma showFrame_fields:
  "images (showFrame ev k s) = images s"
  "isLoaded (showFrame ev k s) = isLoaded s"
  "heroOverlay (showFrame ev k s) = heroOverlay s"
  "pendingHide (showFrame ev k s) = pendingHide s"
  "loadedCount (showFrame ev k s) = loadedCount s"
  by (simp_all add: showFrame_def drawFrame_fields)

lemma updateIndicators_fields:
  "images (updateIndicators p s) = images s"
  "isLoaded (updateIndicators p s) = isLoaded s"
  "heroOverlay (updateIndicators p s) = heroOverlay s"
  "currentFrame (updateIndicators p s) = currentFrame s"
  "pendingHide (updateIndicators p s) = pendingHide s"
  "loadedCount (updateIndicators p s) = loadedCount s"
  by (simp_all add: updateIndicators_def)

lemma updateOverlay_fields:
  "images (updateOverlay p h v s) = images s"
  "isLoaded (updateOverlay p h v s) = isLoaded s"
  "currentFrame (updateOverlay p h v s) = currentFrame s"
  "pendingHide (updateOverlay p h v s) = pendingHide s"
  "loadedCount (updateOverlay p h v s) = loadedCount s"
  by (simp_all add: updateOverlay_def split: option.splits)

lemma updateWrapper_fields:
  "images (updateWrapper p h v s) = images s"
  "isLoaded (updateWrapper p h v s) = isLoaded s"
  "heroOverlay (updateWrapper p h v s) = heroOverlay s"
  "currentFrame (updateWrapper p h v s) = currentFrame s"
  "pendingHide (updateWrapper p h v s) = pendingHide s"
  "loadedCount (updateWrapper p h v s) = loadedCount s"
  by (simp_all add: updateWrapper_def)

lemma constructor_fields:
  "loadedCount (constructor ev page) = 0"
  "pendingHide (constructor ev page) = 0"
  "currentFrame (constructor ev page) = Num 0"
  "images (constructor ev page) = Map.empty"
  "heroOverlay (constructor ev page) = heroOverlay page"
  by (simp_all add: constructor_def resize_def Let_def)

subsection \<open>Runs of decode callbacks\<close>

lemma run_append: "run (xs @ ys) s = run ys (run xs s)"
  by (induction xs arbitrary: s) auto

lemma step_callback:
  assumes "callback e"
  shows "loadedCount (step ev e s) = loadedCount s + 1"
    and "isLoaded (step ev e s) = (isLoaded s \<or> (success e \<and> loadedCount s + 1 = frameCount))"
    and "pendingHide (step ev e s) =
           pendingHide s + (if success e \<and> loadedCount s + 1 = frameCount then 1 else 0)"
    and "currentFrame (step ev e s) = currentFrame s"
    and "heroOverlay (step ev e s) = heroOverlay s"
  using assms
  by (cases e; simp add: step_def img_onload_def img_onerror_def Let_def drawFrame_fields)+

lemma step_ImageLoad_images:
  "i < frameCount \<Longrightarrow> images (step ev (ImageLoad i im) s) = (images s)(i \<mapsto> im)"
  by (simp add: step_def img_onload_def Let_def drawFrame_fields)

lemma step_ImageError_images:
  "images (step ev (ImageError i) s) = images s"
  by (simp add: step_def img_onerror_def)

text \<open>A run of callbacks that stops short of the last one changes no flag.\<close>

lemma run_callbacks_short:
  assumes "\<forall>x \<in> set es. callback (snd x)" and "loadedCount s + length es < frameCount"
  shows "loadedCount (run es s) = loadedCount s + length es
       \<and> isLoaded (run es s) = isLoaded s
       \<and> pendingHide (run es s) = pendingHide s
       \<and> currentFrame (run es s) = currentFrame s
       \<and> heroOverlay (run es s) = heroOverlay s"
  using assms
proof (induction es arbitrary: s)
  case Nil
  then show ?case by simp
next
  case (Cons x es)
  obtain ev e where x: "x = (ev, e)" by (cases x)
  with Cons.prems have c: "callback e" by simp
  have "loadedCount (step ev e s) + length es < frameCount"
    using Cons.prems by (simp add: step_callback(1) [OF c])
  with Cons.IH [of "step ev e s"] Cons.prems show ?case
    by (simp add: x step_callback [OF c])
qed

text \<open>
  The last of the \<open>frameCount\<close> callbacks decides alone: the player becomes ready, and
  one timeout is scheduled, exactly when that callback is an \<^verbatim>\<open>onload\<close>.
\<close>

lemma run_callbacks_all:
  assumes "\<forall>x \<in> set es. callback (snd x)" and "callback e"
    and "loadedCount s + length es + 1 = frameCount"
  shows "loadedCount (run (es @ [(ev, e)]) s) = frameCount"
    and "isLoaded (run (es @ [(ev, e)]) s) = (isLoaded s \<or> success e)"
    and "pendingHide (run (es @ [(ev, e)]) s) = pendingHide s + (if success e then 1 else 0)"
    and "currentFrame (run (es @ [(ev, e)]) s) = currentFrame s"
    and "heroOverlay (run (es @ [(ev, e)]) s) = heroOverlay s"
proof -
  have short: "loadedCount s + length es < frameCount" using assms(3) by simp
  note r = run_callbacks_short [OF assms(1) short]
  have lc: "loadedCount (run es s) + 1 = frameCount" using r assms(3) by simp
  show "loadedCount (run (es @ [(ev, e)]) s) = frameCount"
    using lc by (simp add: run_append step_callback(1) [OF assms(2)])
  show "isLoaded (run (es @ [(ev, e)]) s) = (isLoaded s \<or> success e)"
    using lc r by (simp add: run_append step_callback(2) [OF assms(2)])
  show "pendingHide (run (es @ [(ev, e)]) s) = pendingHide s + (if success e then 1 else 0)"
    using lc r by (simp add: run_append step_callback(3) [OF assms(2)])
  show "currentFrame (run (es @ [(ev, e)]) s) = currentFrame s"
    using r by (simp add: run_append step_callback(4) [OF assms(2)])
  show "heroOverlay (run (es @ [(ev, e)]) s) = heroOverlay s"
    using r by (simp add: run_append step_callback(5) [OF assms(2)])
qed

lemma run_loads_images:
  assumes "\<forall>i \<in> set ks. i < frameCount"
  shows "images (run (loads ev ks) s) k = (if k \<in> set ks then Some (frame k) else images s k)"
  using assms
proof (induction ks arbitrary: s)
  case Nil
  then show ?case by (simp add: loads_def)
next
  case (Cons i ks)
  then have i: "i < frameCount" by simp
  have "run (loads ev (i # ks)) s = run (loads ev ks) (step ev (ImageLoad i (frame i)) s)"
    by (simp add: loads_def)
  with Cons.IH [of "step ev (ImageLoad i (frame i)) s"] Cons.prems show ?case
    by (simp add: step_ImageLoad_images [OF i])
qed

lemma loads_callbacks:
  "\<forall>i \<in> set ks. i < frameCount \<Longrightarrow> \<forall>x \<in> set (loads ev ks). callback (snd x)"
  by (auto simp add: loads_def)

subsection \<open>The example players\<close>

lemma fl_exact: "rnd x = x \<Longrightarrow> \<bar>x\<bar> < 2 ^ 1024 \<Longrightarrow> fl x = Num x"
  by (auto simp add: fl_def Let_def)

lemma rnd_values:
  "rnd 1 = 1" "rnd 191 = 191" "rnd 256 = 256" "rnd 800 = 800" "rnd 1280 = 1280"
  by code_simp+

lemma fl_values:
  "fl 1 = Num 1" "fl 191 = Num 191" "fl 256 = Num 256" "fl 800 = Num 800"
  "fl 1280 = Num 1280"
  by (simp_all add: fl_exact rnd_values)

lemma ready_page_fields:
  "isLoaded ready_page" "currentFrame ready_page = Num 0"
  "heroOverlay ready_page = Some blank" "pendingHide ready_page = 1"
  "loadedCount ready_page = frameCount"
proof -
  have split: "loads e0 [0..<frameCount]
      = loads e0 [0..<191] @ [(e0, ImageLoad 191 (frame 191))]"
    using upt_Suc_append [of 0 191] by (simp add: loads_def frameCount_def)
  have cb: "\<forall>x \<in> set (loads e0 [0..<191]). callback (snd x)"
    by (rule loads_callbacks) (simp add: frameCount_def)
  have last: "callback (ImageLoad 191 (frame 191))" by (simp add: frameCount_def)
  have n: "loadedCount (constructor e0 page0) + length (loads e0 [0..<191]) + 1 = frameCount"
    by (simp add: constructor_fields loads_def frameCount_def)
  note r = run_callbacks_all [OF cb last n, of e0]
  show "isLoaded ready_page" using r(2) by (simp add: ready_page_def split)
  show "currentFrame ready_page = Num 0"
    using r(4) by (simp add: ready_page_def split constructor_fields)
  show "heroOverlay ready_page = Some blank"
    using r(5) by (simp add: ready_page_def split constructor_fields page0_def)
  show "pendingHide ready_page = 1"
    using r(3) by (simp add: ready_page_def split constructor_fields)
  show "loadedCount ready_page = frameCount"
    using r(1) by (simp add: ready_page_def split)
qed

lemma ready_page_images: "images ready_page k = (if k < frameCount then Some (frame k) else None)"
  unfolding ready_page_def
  by (subst run_loads_images) (auto simp add: constructor_fields)

lemma flat_page_fields:
  "images flat_page 0 = Some flat"
  "ctx flat_page = Some fresh_ctx"
  "canvas_width flat_page = 1280" "canvas_height flat_page = 800"
  by (simp_all add: flat_page_def step_def img_onload_def frameCount_def Let_def
        constructor_def resize_def page0_def e0_def env_at_def jor_def fl_values
        reflectDim_def)

subsection \<open>The overlay\<close>





subsection \<open>Rendering a frame\<close>

lemma drawFrame_unloaded: "images_at (images s) k = None \<Longrightarrow> drawFrame ev k s = s"
  by (simp add: drawFrame_def)

lemma drawFrame_no_ctx: "ctx s = None \<Longrightarrow> drawFrame ev k s = s"
  by (simp add: drawFrame_def split: option.splits)

text \<open>Lines 125 to 132 leave a context that does not depend on the one they found.\<close>

lemma background:
  "fillRect (Num 0) (Num 0) (Num w) (Num h)
     ((clearRect bw bh (Num 0) (Num 0) (Num (real bw)) (Num (real bh))
        (setTransform (Num 1) (Num 0) (Num 0) (Num 1) (Num 0) (Num 0) c0))\<lparr>fillStyle := col\<rparr>)
   = \<lparr>transform = identity, fillStyle = col,
      pixels = [Filled col identity (Num 0) (Num 0) (Num w) (Num h)]\<rparr>"
  by (simp add: setTransform_def clearRect_def fillRect_def identity_def)

lemma drawFrame_any_ctx:
  "images_at (images s) k = Some im \<Longrightarrow>
   drawFrame ev k (s\<lparr>ctx := Some c\<rparr>) = (drawFrame ev k (s\<lparr>ctx := Some c'\<rparr>))"
  by (simp add: drawFrame_def Let_def background split: prod.splits)

lemma drawFrame_ctx_Some:
  assumes "ctx s = Some c0"
  shows "\<exists>c. drawFrame ev k s = s\<lparr>ctx := Some c\<rparr>"
proof (cases "images_at (images s) k")
  case None
  then have "drawFrame ev k s = s\<lparr>ctx := Some c0\<rparr>"
    using assms by (simp add: drawFrame_unloaded)
  then show ?thesis by blast
next
  case (Some im)
  with assms show ?thesis
    by (auto simp add: drawFrame_def Let_def split: prod.splits)
qed

text \<open>
  Claim C9. Drawing a frame twice in a row, with the same index, surface size and density
  factor, leaves the player, its context and its pixel buffer as drawing it once does.
  This holds for every index and every player, a loaded slot with an image of positive
  dimensions included.
\<close>

theorem drawFrame_idempotent: "drawFrame ev k (drawFrame ev k s) = drawFrame ev k s"
proof (cases "ctx s")
  case None
  then show ?thesis by (simp add: drawFrame_no_ctx)
next
  case (Some c0)
  show ?thesis
  proof (cases "images_at (images s) k")
    case None
    then show ?thesis by (simp add: drawFrame_unloaded)
  next
    case (Some im)
    from \<open>ctx s = Some c0\<close> obtain c where c: "drawFrame ev k s = s\<lparr>ctx := Some c\<rparr>"
      using drawFrame_ctx_Some by blast
    have "drawFrame ev k (s\<lparr>ctx := Some c\<rparr>) = drawFrame ev k (s\<lparr>ctx := Some c0\<rparr>)"
      using Some by (rule drawFrame_any_ctx)
    also have "s\<lparr>ctx := Some c0\<rparr> = s" using \<open>ctx s = Some c0\<close> by simp
    finally show ?thesis using c by simp
  qed
qed

theorem drawFrame_idempotent_witness:
  "drawFrame e0 (Num 0) (drawFrame e0 (Num 0) ready_page) = drawFrame e0 (Num 0) ready_page"
  using drawFrame_idempotent [of e0 "Num 0" ready_page] by simp

text \<open>What \<^verbatim>\<open>drawFrame\<close> does with a loaded image that reports a zero width or height.\<close>

lemma drawFrame_zero_dimension:
  assumes "images_at (images s) k = Some im" and "ctx s = Some c0"
    and "img_width im = 0 \<or> img_height im = 0"
  shows "\<exists>c. drawFrame ev k s = s\<lparr>ctx := Some c\<rparr> \<and> fillStyle c = ''#0f0f0f'' \<and>
           pixels c = [Filled ''#0f0f0f'' identity (Num 0) (Num 0)
                          (Num (real (canvas_width s))) (Num (real (canvas_height s)))]"
  using assms
  by (auto simp add: drawFrame_def Let_def background scale_def)

text \<open>
  Claim C4, as stated: a frame whose image reports a zero width or height leaves the
  pixel buffer unchanged. It does not: the guard of line 138 comes after the buffer was
  cleared and filled. On \<open>flat_page\<close>, whose buffer is empty, \<^verbatim>\<open>drawFrame(0)\<close> leaves
  the buffer filled with the background colour.
\<close>

theorem drawFrame_degenerate_paints:
  "images_at (images flat_page) (Num 0) = Some flat \<and> img_width flat = 0 \<and>
   map_option pixels (ctx flat_page) = Some [] \<and>
   map_option pixels (ctx (drawFrame e0 (Num 0) flat_page))
     = Some [Filled ''#0f0f0f'' identity (Num 0) (Num 0) (Num 1280) (Num 800)]"
proof -
  obtain c where "drawFrame e0 (Num 0) flat_page = flat_page\<lparr>ctx := Some c\<rparr>"
    and "pixels c = [Filled ''#0f0f0f'' identity (Num 0) (Num 0)
           (Num (real (canvas_width flat_page))) (Num (real (canvas_height flat_page)))]"
    using drawFrame_zero_dimension [of flat_page "Num 0" flat fresh_ctx e0]
    by (auto simp add: flat_page_fields flat_def)
  then show ?thesis
    by (simp add: flat_page_fields fresh_ctx_def flat_def)
qed

text \<open>
  Claim C4, amended. When the slot is loaded, a context exists and the image reports a
  zero width or height, only the drawing of the image is skipped: the buffer is cleared
  and filled with the background colour \<^verbatim>\<open>#0f0f0f\<close> over its whole size, and holds
  nothing else; no other field of the player changes.
\<close>

theorem drawFrame_degenerate:
  assumes "images_at (images s) k = Some im" and "ctx s = Some c0"
    and "img_width im = 0 \<or> img_height im = 0"
  shows "\<exists>c. drawFrame ev k s = s\<lparr>ctx := Some c\<rparr> \<and> fillStyle c = ''#0f0f0f'' \<and>
           pixels c = [Filled ''#0f0f0f'' identity (Num 0) (Num 0)
                          (Num (real (canvas_width s))) (Num (real (canvas_height s)))]"
  using assms by (rule drawFrame_zero_dimension)

theorem drawFrame_degenerate_witness:
  "\<exists>c. drawFrame e0 (Num 0) flat_page = flat_page\<lparr>ctx := Some c\<rparr> \<and> fillStyle c = ''#0f0f0f'' \<and>
         pixels c = [Filled ''#0f0f0f'' identity (Num 0) (Num 0) (Num 1280) (Num 800)]"
  using drawFrame_degenerate [of flat_page "Num 0" flat fresh_ctx e0]
  by (simp add: flat_page_fields flat_def)

subsection \<open>The frame that is shown\<close>

lemma last_frame: "jsub (Num (real frameCount)) (Num 1) = Num 191"
  by (simp add: frameCount_def fl_values)

lemma newFrame_index:
  assumes "images_at m (newFrame p) = Some im"
  shows "\<exists>k<frameCount. newFrame p = Num (real k) \<and> m k = Some im"
proof -
  obtain b where b: "newFrame p = Num b"
    using assms by (cases "newFrame p") auto
  have "newFrame p = jmin (jmax (targetFrame p) (Num 0)) (Num 191)"
    by (simp only: newFrame_def last_frame)
  with b have "b \<le> 191"
    by (cases "jmax (targetFrame p) (Num 0)") auto
  moreover from assms b have "0 \<le> b" and "b = of_int \<lfloor>b\<rfloor>" and "m (nat \<lfloor>b\<rfloor>) = Some im"
    by (auto split: if_splits)
  ultimately have "nat \<lfloor>b\<rfloor> < frameCount" and "real (nat \<lfloor>b\<rfloor>) = b"
    by (auto simp add: frameCount_def)
  with b \<open>m (nat \<lfloor>b\<rfloor>) = Some im\<close> show ?thesis by metis
qed

lemma showFrame_currentFrame:
  "currentFrame (showFrame ev nf s) =
     (if jsne nf (currentFrame s) \<and> images_at (images s) nf \<noteq> None
      then nf else currentFrame s)"
  by (auto simp add: showFrame_def drawFrame_fields)

lemma handleScroll_frame:
  assumes "isLoaded s" and "hero ev = Some (t, h)"
  shows "\<exists>s'. handleScroll ev s = Inr s' \<and> images s' = images s \<and> isLoaded s' \<and>
           currentFrame s' =
             (let nf = newFrame (progress t h (innerHeight ev))
              in if jsne nf (currentFrame s) \<and> images_at (images s) nf \<noteq> None
                 then nf else currentFrame s)"
  using assms
  by (simp add: handleScroll_def Let_def updateWrapper_fields updateOverlay_fields
        updateIndicators_fields showFrame_fields showFrame_currentFrame)

lemma handleScroll_images:
  "handleScroll ev s = Inr s' \<Longrightarrow> images s' = images s"
  by (auto simp add: handleScroll_def Let_def updateWrapper_fields updateOverlay_fields
        updateIndicators_fields showFrame_fields split: if_splits option.splits)


lemma shown_grow:
  assumes "shown s" and "currentFrame s' = currentFrame s"
    and "\<And>k. images s k \<noteq> None \<Longrightarrow> images s' k \<noteq> None"
  shows "shown s'"
  using assms unfolding shown_def by metis

lemma shown_step: "shown s \<Longrightarrow> shown (step ev e s)"
proof (cases e)
  case (FirstImageLoad im)
  assume "shown s"
  then show ?thesis
    by (rule shown_grow) (simp_all add: FirstImageLoad step_def firstImage_onload_def drawFrame_fields)
next
  case (ImageLoad i im)
  assume "shown s"
  then show ?thesis
    by (rule shown_grow)
       (simp_all add: ImageLoad step_def img_onload_def Let_def drawFrame_fields)
next
  case (ImageError i)
  assume "shown s"
  then show ?thesis
    by (rule shown_grow) (simp_all add: ImageError step_def img_onerror_def)
next
  case Resize
  assume "shown s"
  then show ?thesis
    by (rule shown_grow) (simp_all add: Resize step_def resize_def Let_def drawFrame_fields)
next
  case HideTimeout
  assume "shown s"
  then show ?thesis
    by (rule shown_grow) (simp_all add: HideTimeout step_def hidePreloader_def)
next
  case Scroll
  assume sh: "shown s"
  show ?thesis
  proof (cases "handleScroll ev s")
    case (Inl err)
    with sh show ?thesis by (simp add: Scroll step_def)
  next
    case (Inr s')
    show ?thesis
    proof (cases "isLoaded s")
      case False
      with sh show ?thesis by (simp add: Scroll step_def handleScroll_def)
    next
      case True
      with Inr obtain t h where hero: "hero ev = Some (t, h)"
        by (cases "hero ev") (auto simp add: handleScroll_def)
      define nf where "nf = newFrame (progress t h (innerHeight ev))"
      from handleScroll_frame [OF True hero] Inr
      have im: "images s' = images s"
        and cf: "currentFrame s' =
          (if jsne nf (currentFrame s) \<and> images_at (images s) nf \<noteq> None
           then nf else currentFrame s)"
        by (auto simp add: nf_def Let_def)
      have "shown s'"
      proof (cases "jsne nf (currentFrame s) \<and> images_at (images s) nf \<noteq> None")
        case False
        with cf have "currentFrame s' = currentFrame s" by auto
        with sh im show ?thesis by (simp add: shown_def)
      next
        case True
        then obtain a where "images_at (images s) nf = Some a" by auto
        from newFrame_index [OF this [unfolded nf_def]]
        obtain k where "k < frameCount" and "nf = Num (real k)" and "images s k = Some a"
          by (auto simp add: nf_def)
        moreover from True cf have "currentFrame s' = nf" by auto
        ultimately show ?thesis using im by (auto simp add: shown_def)
      qed
      with Inr show ?thesis by (simp add: Scroll step_def)
    qed
  qed
qed

lemma reachable_run: "reachable s \<Longrightarrow> reachable (run es s)"
proof (induction es arbitrary: s)
  case Nil
  then show ?case by simp
next
  case (Cons x es)
  obtain ev e where x: "x = (ev, e)" by (cases x)
  from Cons.prems have "reachable (step ev e s)" by (rule reachable.reach_step)
  then have "reachable (run es (step ev e s))" by (rule Cons.IH)
  then show ?case by (simp add: x)
qed

lemma rnd_dyadic:
  "rnd (33 / 128) = 33 / 128" "rnd (17 / 64) = 17 / 64" "rnd (69 / 256) = 69 / 256"
  "rnd (6303 / 128) = 6303 / 128" "rnd (3247 / 64) = 3247 / 64" "rnd (13179 / 256) = 13179 / 256"
  by code_simp+

lemma fl_dyadic:
  "fl (33 / 128) = Num (33 / 128)" "fl (17 / 64) = Num (17 / 64)" "fl (69 / 256) = Num (69 / 256)"
  "fl (6303 / 128) = Num (6303 / 128)" "fl (3247 / 64) = Num (3247 / 64)"
  "fl (13179 / 256) = Num (13179 / 256)"
  by (simp_all add: fl_exact rnd_dyadic)

lemma progress_values:
  "progress (Num (- 66)) (Num 1056) (Num 800) = Num (33 / 128)"
  "progress (Num (- 68)) (Num 1056) (Num 800) = Num (17 / 64)"
  "progress (Num (- 69)) (Num 1056) (Num 800) = Num (69 / 256)"
  by (simp_all add: progress_def fl_dyadic fl_values)

lemma newFrame_values:
  "newFrame (Num (33 / 128)) = Num 49"
  "newFrame (Num (17 / 64)) = Num 50"
  "newFrame (Num (69 / 256)) = Num 51"
  by (simp_all add: newFrame_def targetFrame_def frameCount_def fl_values fl_dyadic fl_values)

lemma gap_page_fields:
  "isLoaded gap_page" "currentFrame gap_page = Num 0"
proof -
  have fc: "frameCount = Suc 191" by (simp add: frameCount_def)
  have "[51..<frameCount] = [51..<191] @ [191]"
    unfolding fc by (rule upt_Suc_append) simp
  then have split: "gap50 = ((e0, ImageError 50) # loads e0 ([0..<50] @ [51..<191]))
       @ [(e0, ImageLoad 191 (frame 191))]"
    by (simp add: gap50_def loads_def del: upt_rec_numeral)
  have "\<forall>x \<in> set (loads e0 ([0..<50] @ [51..<191])). callback (snd x)"
    by (intro loads_callbacks) (auto simp add: fc simp del: upt_rec_numeral)
  then have cb: "\<forall>x \<in> set ((e0, ImageError 50) # loads e0 ([0..<50] @ [51..<191])).
      callback (snd x)"
    by (simp add: fc del: upt_rec_numeral)
  have last: "callback (ImageLoad 191 (frame 191))" by (simp add: fc)
  have n: "loadedCount (constructor e0 page0)
      + length ((e0, ImageError 50) # loads e0 ([0..<50] @ [51..<191])) + 1 = frameCount"
    by (simp add: constructor_fields loads_def fc del: upt_rec_numeral)
  note r = run_callbacks_all [OF cb last n, of e0]
  show "isLoaded gap_page" using r(2) by (simp add: gap_page_def split)
  show "currentFrame gap_page = Num 0"
    using r(4) by (simp add: gap_page_def split constructor_fields)
qed

lemma gap_page_images:
  "images gap_page k = (if k < frameCount \<and> k \<noteq> 50 then Some (frame k) else None)"
proof -
  have lt: "50 < frameCount" by (simp add: frameCount_def)
  have g: "gap_page = run (loads e0 ([0..<50] @ [51..<frameCount]))
                     (step e0 (ImageError 50) (constructor e0 page0))"
    by (simp add: gap_page_def gap50_def)
  have v: "\<forall>i \<in> set ([0..<50] @ [51..<frameCount]). i < frameCount"
    using lt by auto
  have mem: "k \<in> set ([0..<50] @ [51..<frameCount]) \<longleftrightarrow> k < frameCount \<and> k \<noteq> 50"
    using lt by auto
  show ?thesis
    unfolding g run_loads_images [OF v] mem
    by (simp add: step_ImageError_images constructor_fields)
qed

lemma scroll_frame:
  assumes "isLoaded s" and "progress (Num t) (Num 1056) (Num 800) = p"
  shows "isLoaded (step (env_at t 1056) Scroll s)"
    and "images (step (env_at t 1056) Scroll s) = images s"
    and "currentFrame (step (env_at t 1056) Scroll s) =
           (if jsne (newFrame p) (currentFrame s) \<and> images_at (images s) (newFrame p) \<noteq> None
            then newFrame p else currentFrame s)"
proof -
  have h: "hero (env_at t 1056) = Some (Num t, Num 1056)"
    and i: "innerHeight (env_at t 1056) = Num 800"
    by (simp_all add: env_at_def)
  from handleScroll_frame [OF assms(1) h] obtain s' where
    s': "handleScroll (env_at t 1056) s = Inr s'" "images s' = images s" "isLoaded s'"
      "currentFrame s' =
         (if jsne (newFrame p) (currentFrame s) \<and> images_at (images s) (newFrame p) \<noteq> None
          then newFrame p else currentFrame s)"
    unfolding i assms(2) Let_def by blast
  then show "isLoaded (step (env_at t 1056) Scroll s)"
    and "images (step (env_at t 1056) Scroll s) = images s"
    and "currentFrame (step (env_at t 1056) Scroll s) =
           (if jsne (newFrame p) (currentFrame s) \<and> images_at (images s) (newFrame p) \<noteq> None
            then newFrame p else currentFrame s)"
    by (simp_all add: step_def)
qed

lemma gap_slots:
  "images gap_page 49 = Some (frame 49)"
  "images gap_page 50 = None"
  "images gap_page 51 = Some (frame 51)"
  by (simp_all add: gap_page_images frameCount_def)

lemma two_histories:
  "images from_below = images from_above \<and> isLoaded from_below \<and> isLoaded from_above \<and>
   currentFrame from_below = Num 49 \<and> currentFrame from_above = Num 51"
proof -
  define a where "a = step (env_at (- 66) 1056) Scroll gap_page"
  define b where "b = step (env_at (- 69) 1056) Scroll gap_page"
  note sa = scroll_frame [OF gap_page_fields(1) progress_values(1), folded a_def]
  note sb = scroll_frame [OF gap_page_fields(1) progress_values(3), folded b_def]
  have ca: "currentFrame a = Num 49"
    using sa(3) by (simp add: newFrame_values gap_page_fields gap_slots jsne_def)
  have cb: "currentFrame b = Num 51"
    using sb(3) by (simp add: newFrame_values gap_page_fields gap_slots jsne_def)
  note ta = scroll_frame [OF sa(1) progress_values(2)]
  note tb = scroll_frame [OF sb(1) progress_values(2)]
  have "currentFrame from_below = Num 49"
    using ta(3) by (simp add: from_below_def a_def [symmetric] newFrame_values sa(2) gap_slots ca)
  moreover have "currentFrame from_above = Num 51"
    using tb(3) by (simp add: from_above_def b_def [symmetric] newFrame_values sb(2) gap_slots cb)
  moreover have "images from_below = images gap_page" "images from_above = images gap_page"
    using ta(2) tb(2) sa(2) sb(2) by (simp_all add: from_below_def from_above_def a_def b_def)
  moreover have "isLoaded from_below" "isLoaded from_above"
    using ta(1) tb(1) by (simp_all add: from_below_def from_above_def a_def b_def)
  ultimately show ?thesis by simp
qed

text \<open>
  Claim C5. In every state the player can reach from its constructor, by any sequence of
  decode callbacks, resize events, scroll evaluations and timeouts, \<open>currentFrame\<close> is
  its initial value 0 or an index below \<open>frameCount\<close> whose slot is loaded.
\<close>

theorem currentFrame_loaded_or_initial:
  "reachable s \<Longrightarrow>
     currentFrame s = Num 0 \<or>
     (\<exists>k<frameCount. currentFrame s = Num (real k) \<and> images s k \<noteq> None)"
proof (induction rule: reachable.induct)
  case (reach_start ev page)
  show ?case by (simp add: constructor_fields)
next
  case (reach_step s ev e)
  then have "shown s" by (simp add: shown_def)
  then have "shown (step ev e s)" by (rule shown_step)
  then show ?case by (simp add: shown_def)
qed

theorem currentFrame_loaded_or_initial_witness:
  "reachable from_above \<and>
   (currentFrame from_above = Num 0 \<or>
    (\<exists>k<frameCount. currentFrame from_above = Num (real k) \<and> images from_above k \<noteq> None))"
proof -
  have "reachable (constructor e0 page0)" by (rule reachable.reach_start)
  then have "reachable gap_page" unfolding gap_page_def by (rule reachable_run)
  then have r: "reachable from_above" unfolding from_above_def by (rule reachable_run)
  from currentFrame_loaded_or_initial [OF r] r show ?thesis by simp
qed

text \<open>The canvas: what a rendering depends on, and what a scroll evaluation leaves on it.\<close>

lemma drawFrame_surface: "surface (drawFrame ev k s) = surface s"
proof (cases "ctx s")
  case None
  then show ?thesis by (simp add: drawFrame_no_ctx)
next
  case (Some c0)
  then obtain c where "drawFrame ev k s = s\<lparr>ctx := Some c\<rparr>"
    using drawFrame_ctx_Some by blast
  with Some show ?thesis by (simp add: surface_def)
qed

text \<open>A rendering depends on the player through its images and its surface only.\<close>

lemma drawFrame_ctx_cong:
  assumes "images_at (images s) k \<noteq> None" and "images s' = images s"
    and "surface s' = surface s"
  shows "ctx (drawFrame ev k s') = ctx (drawFrame ev k s)"
proof (cases "ctx s")
  case None
  with assms(3) have "ctx s' = None" by (simp add: surface_def)
  with None show ?thesis by (simp add: drawFrame_no_ctx)
next
  case (Some c)
  with assms(3) obtain c' where c': "ctx s' = Some c'" by (auto simp add: surface_def)
  from assms(1) obtain im where im: "images_at (images s) k = Some im" by auto
  from assms(3) have d: "displayWidth s' = displayWidth s" "displayHeight s' = displayHeight s"
    "dpr s' = dpr s" "canvas_width s' = canvas_width s" "canvas_height s' = canvas_height s"
    by (simp_all add: surface_def)
  show ?thesis
    using Some c' im assms(2) d
    by (simp add: drawFrame_def Let_def background split: prod.splits)
qed

lemma drawFrame_holds:
  assumes "images_at (images s) k \<noteq> None"
  shows "holds_frame ev k (drawFrame ev k s)"
  unfolding holds_frame_def
  by (rule drawFrame_ctx_cong [OF assms]) (simp_all add: drawFrame_fields drawFrame_surface)

lemma holds_frame_cong:
  assumes "images_at (images s) k \<noteq> None" and "images s' = images s"
    and "surface s' = surface s" and "ctx s' = ctx s"
  shows "holds_frame ev k s' = holds_frame ev k s"
  unfolding holds_frame_def using drawFrame_ctx_cong [OF assms(1-3)] assms(4) by simp

lemma drawFrame_env_cong:
  assumes "innerWidth ev' = innerWidth ev" and "innerHeight ev' = innerHeight ev"
    and "devicePixelRatio ev' = devicePixelRatio ev"
  shows "drawFrame ev' k s = drawFrame ev k s"
  unfolding drawFrame_def assms ..

lemma drawFrame_env_at: "drawFrame (env_at t h) k s = drawFrame (env_at t' h') k s"
  by (rule drawFrame_env_cong) (simp_all add: env_at_def)

lemma update_canvas:
  "ctx (updateIndicators p s) = ctx s" "surface (updateIndicators p s) = surface s"
  "ctx (updateOverlay p h v s) = ctx s" "surface (updateOverlay p h v s) = surface s"
  "ctx (updateWrapper p h v s) = ctx s" "surface (updateWrapper p h v s) = surface s"
  by (simp_all add: updateIndicators_def updateOverlay_def updateWrapper_def surface_def
        split: option.splits)

lemma surface_update:
  "surface (x\<lparr>images := m\<rparr>) = surface x"
  "surface (x\<lparr>loadedCount := n\<rparr>) = surface x"
  "surface (x\<lparr>isLoaded := b\<rparr>) = surface x"
  "surface (x\<lparr>pendingHide := n\<rparr>) = surface x"
  "surface (x\<lparr>currentFrame := k\<rparr>) = surface x"
  by (simp_all add: surface_def)

lemma showFrame_canvas:
  "surface (showFrame ev nf s) = surface s"
  "ctx (showFrame ev nf s) =
     (if jsne nf (currentFrame s) \<and> images_at (images s) nf \<noteq> None
      then ctx (drawFrame ev nf s) else ctx s)"
proof -
  have "surface (s\<lparr>currentFrame := nf\<rparr>) = surface s" by (simp add: surface_def)
  then show "surface (showFrame ev nf s) = surface s"
    by (simp add: showFrame_def drawFrame_surface)
  have "ctx (drawFrame ev nf (s\<lparr>currentFrame := nf\<rparr>)) = ctx (drawFrame ev nf s)"
    if "images_at (images s) nf \<noteq> None"
    using that by (rule drawFrame_ctx_cong) (simp_all add: surface_def)
  then show "ctx (showFrame ev nf s) =
     (if jsne nf (currentFrame s) \<and> images_at (images s) nf \<noteq> None
      then ctx (drawFrame ev nf s) else ctx s)"
    by (auto simp add: showFrame_def)
qed

text \<open>What a scroll evaluation of a ready player does to the frame and to the canvas.\<close>

lemma handleScroll_canvas:
  assumes "isLoaded s" and "hero ev = Some (t, h)"
  shows "\<exists>s'. handleScroll ev s = Inr s' \<and> images s' = images s \<and> isLoaded s' \<and>
           surface s' = surface s \<and>
           currentFrame s' =
             (if jsne (newFrame (progress t h (innerHeight ev))) (currentFrame s) \<and>
                 images_at (images s) (newFrame (progress t h (innerHeight ev))) \<noteq> None
              then newFrame (progress t h (innerHeight ev)) else currentFrame s) \<and>
           ctx s' =
             (if jsne (newFrame (progress t h (innerHeight ev))) (currentFrame s) \<and>
                 images_at (images s) (newFrame (progress t h (innerHeight ev))) \<noteq> None
              then ctx (drawFrame ev (newFrame (progress t h (innerHeight ev))) s) else ctx s)"
  using assms
  by (simp add: handleScroll_def Let_def updateWrapper_fields updateOverlay_fields
        updateIndicators_fields showFrame_fields showFrame_currentFrame update_canvas
        showFrame_canvas)

lemma handleScroll_surface: "handleScroll ev s = Inr s' \<Longrightarrow> surface s' = surface s"
  by (auto simp add: handleScroll_def Let_def update_canvas showFrame_canvas
        split: if_splits option.splits)

lemma step_surface: "e \<noteq> Resize \<Longrightarrow> surface (step ev e s) = surface s"
proof (cases e)
  case (FirstImageLoad im)
  have "surface (s\<lparr>images := (images s)(0 \<mapsto> im)\<rparr>) = surface s" by (simp add: surface_def)
  then show ?thesis by (simp add: FirstImageLoad step_def firstImage_onload_def drawFrame_surface)
next
  case (ImageLoad i im)
  then show ?thesis
    by (simp add: step_def img_onload_def Let_def surface_update drawFrame_surface)
next
  case (ImageError i)
  then show ?thesis by (simp add: step_def img_onerror_def surface_def)
next
  case Resize
  assume "e \<noteq> Resize"
  with Resize show ?thesis by simp
next
  case Scroll
  then show ?thesis
    by (cases "handleScroll ev s") (simp_all add: step_def handleScroll_surface)
next
  case HideTimeout
  then show ?thesis by (simp add: step_def hidePreloader_def surface_def)
qed

lemma run_surface: "\<forall>x \<in> set es. snd x \<noteq> Resize \<Longrightarrow> surface (run es s) = surface s"
proof (induction es arbitrary: s)
  case Nil
  then show ?case by simp
next
  case (Cons x es)
  obtain ev e where x: "x = (ev, e)" by (cases x)
  with Cons.prems have "e \<noteq> Resize" by simp
  then have "surface (step ev e s) = surface s" by (rule step_surface)
  moreover have "surface (run es (step ev e s)) = surface (step ev e s)"
    using Cons.prems by (intro Cons.IH) simp
  ultimately show ?case by (simp add: x)
qed

lemma step_Scroll_canvas:
  assumes "isLoaded s" and "hero ev = Some (t, h)"
    and "newFrame (progress t h (innerHeight ev)) = nf"
  shows "images (step ev Scroll s) = images s" and "isLoaded (step ev Scroll s)"
    and "surface (step ev Scroll s) = surface s"
    and "currentFrame (step ev Scroll s) =
           (if jsne nf (currentFrame s) \<and> images_at (images s) nf \<noteq> None
            then nf else currentFrame s)"
    and "ctx (step ev Scroll s) =
           (if jsne nf (currentFrame s) \<and> images_at (images s) nf \<noteq> None
            then ctx (drawFrame ev nf s) else ctx s)"
proof -
  from handleScroll_canvas [OF assms(1,2)] obtain s' where
    "handleScroll ev s = Inr s'" "images s' = images s" "isLoaded s'" "surface s' = surface s"
    "currentFrame s' =
           (if jsne nf (currentFrame s) \<and> images_at (images s) nf \<noteq> None
            then nf else currentFrame s)"
    "ctx s' =
           (if jsne nf (currentFrame s) \<and> images_at (images s) nf \<noteq> None
            then ctx (drawFrame ev nf s) else ctx s)"
    unfolding assms(3) by blast
  then show "images (step ev Scroll s) = images s" and "isLoaded (step ev Scroll s)"
    and "surface (step ev Scroll s) = surface s"
    and "currentFrame (step ev Scroll s) =
           (if jsne nf (currentFrame s) \<and> images_at (images s) nf \<noteq> None
            then nf else currentFrame s)"
    and "ctx (step ev Scroll s) =
           (if jsne nf (currentFrame s) \<and> images_at (images s) nf \<noteq> None
            then ctx (drawFrame ev nf s) else ctx s)"
    by (simp_all add: step_def)
qed

lemma page_surface:
  "surface (constructor e0 page0) = (Num 1280, Num 800, Num 1, 1280, 800, False)"
  by (simp add: surface_def constructor_def resize_def page0_def e0_def env_at_def Let_def
        jor_def fl_values reflectDim_def)

lemma ready_page_surface: "surface ready_page = (Num 1280, Num 800, Num 1, 1280, 800, False)"
  unfolding ready_page_def
  by (subst run_surface) (auto simp add: loads_def page_surface)

lemma gap_page_surface: "surface gap_page = (Num 1280, Num 800, Num 1, 1280, 800, False)"
  unfolding gap_page_def
  by (subst run_surface) (auto simp add: gap50_def loads_def page_surface)

lemma rnd_cover_page:
  "rnd (16 / 9) = 2001599834386887 / 1125899906842624"
  "rnd (8 / 5) = 3602879701896397 / 2251799813685248"
  "rnd (800 * (2001599834386887 / 1125899906842624)) = 3127499741229511 / 2199023255552"
  "rnd (1280 - 3127499741229511 / 2199023255552) = - (312749974122951 / 2199023255552)"
  "rnd (- (312749974122951 / 2199023255552) / 2) = - (312749974122951 / 4398046511104)"
  by code_simp+

lemma cover_1280_800:
  "coverFit (Num 1920) (Num 1080) (Num 1280) (Num 800)
     = (Num (3127499741229511 / 2199023255552), Num 800,
        Num (- (312749974122951 / 4398046511104)), Num 0)"
proof -
  have a: "jdiv (Num 1920) (Num 1080) = Num (2001599834386887 / 1125899906842624)"
    using rnd_cover_page(1) by (simp add: fl_def)
  have c: "jdiv (Num 1280) (Num 800) = Num (3602879701896397 / 2251799813685248)"
    using rnd_cover_page(2) by (simp add: fl_def)
  have "fl (800 * (2001599834386887 / 1125899906842624))
      = Num (3127499741229511 / 2199023255552)"
    unfolding fl_def Let_def rnd_cover_page(3) by simp
  then have w: "jmul (Num 800) (Num (2001599834386887 / 1125899906842624))
      = Num (3127499741229511 / 2199023255552)"
    by (simp only: jmul.simps)
  have "fl (1280 - 3127499741229511 / 2199023255552)
      = Num (- (312749974122951 / 2199023255552))"
    unfolding fl_def Let_def rnd_cover_page(4) by simp
  then have x1: "jsub (Num 1280) (Num (3127499741229511 / 2199023255552))
      = Num (- (312749974122951 / 2199023255552))"
    by (simp only: jsub.simps)
  have "fl (- (312749974122951 / 2199023255552) / 2)
      = Num (- (312749974122951 / 4398046511104))"
    unfolding fl_def Let_def rnd_cover_page(5) by simp
  then have x2: "jdiv (Num (- (312749974122951 / 2199023255552))) (Num 2)
      = Num (- (312749974122951 / 4398046511104))"
    by simp
  have y: "jdiv (jsub (Num 800) (Num 800)) (Num 2) = Num 0"
    by (simp add: fl_0)
  have g: "jgt (Num (3602879701896397 / 2251799813685248))
             (Num (2001599834386887 / 1125899906842624)) = False"
    by (simp add: jgt_def)
  show ?thesis
    unfolding coverFit_def a c Let_def
    by (simp only: g if_False w x1 x2 y prod.case)
qed

lemma top_image_last: "top_image (ps @ [Drawn im T x y w h]) = Some im"
  by (induction ps) simp_all

text \<open>On the surface of the example page, drawing a loaded frame leaves its image on top.\<close>

lemma drawFrame_frame_image:
  assumes "images_at (images s) k = Some (frame i)"
    and "surface s = (Num 1280, Num 800, Num 1, 1280, 800, False)"
  shows "canvas_image (drawFrame ev k s) = Some (frame i)"
proof -
  from assms(2) obtain c0 where c0: "ctx s = Some c0" and d: "displayWidth s = Num 1280"
    "displayHeight s = Num 800" "dpr s = Num 1"
    by (auto simp add: surface_def)
  have f: "img_width (frame i) = 1920" "img_height (frame i) = 1080" by (simp_all add: frame_def)
  show ?thesis
    using assms(1) c0 top_image_last [of "[p]" for p]
    by (simp add: drawFrame_def Let_def d f jor_def cover_1280_800 background scale_def
          drawImage_def canvas_image_def)
qed

lemma canvas_image_cong: "ctx s' = ctx s \<Longrightarrow> canvas_image s' = canvas_image s"
  by (simp add: canvas_image_def)

lemma scroll_env:
  "hero (env_at t 1056) = Some (Num t, Num 1056)" "innerHeight (env_at t 1056) = Num 800"
  by (simp_all add: env_at_def)

lemma scroll_target:
  "newFrame (progress (Num (- 66)) (Num 1056) (innerHeight (env_at (- 66) 1056))) = Num 49"
  "newFrame (progress (Num (- 68)) (Num 1056) (innerHeight (env_at (- 68) 1056))) = Num 50"
  "newFrame (progress (Num (- 69)) (Num 1056) (innerHeight (env_at (- 69) 1056))) = Num 51"
  by (simp_all add: scroll_env progress_values newFrame_values)

lemma ready_slots:
  "images ready_page 49 = Some (frame 49)" "images ready_page 50 = Some (frame 50)"
  "(images ready_page)(0 \<mapsto> frame 0) = images ready_page"
  by (auto simp add: ready_page_images frameCount_def)

lemma first_image_late:
  assumes "surface s = (Num 1280, Num 800, Num 1, 1280, 800, False)"
  shows "canvas_image (step ev (FirstImageLoad (frame 0)) s) = Some (frame 0)"
    and "images (step ev (FirstImageLoad (frame 0)) s) = (images s)(0 \<mapsto> frame 0)"
    and "isLoaded (step ev (FirstImageLoad (frame 0)) s) = isLoaded s"
    and "currentFrame (step ev (FirstImageLoad (frame 0)) s) = currentFrame s"
    and "surface (step ev (FirstImageLoad (frame 0)) s) = surface s"
proof -
  have "surface (s\<lparr>images := (images s)(0 \<mapsto> frame 0)\<rparr>)
      = (Num 1280, Num 800, Num 1, 1280, 800, False)"
    using assms by (simp add: surface_update)
  then show "canvas_image (step ev (FirstImageLoad (frame 0)) s) = Some (frame 0)"
    unfolding step_def firstImage_onload_def event.case
    by (intro drawFrame_frame_image) simp_all
  show "images (step ev (FirstImageLoad (frame 0)) s) = (images s)(0 \<mapsto> frame 0)"
    and "isLoaded (step ev (FirstImageLoad (frame 0)) s) = isLoaded s"
    and "currentFrame (step ev (FirstImageLoad (frame 0)) s) = currentFrame s"
    by (simp_all add: step_def firstImage_onload_def drawFrame_fields)
  show "surface (step ev (FirstImageLoad (frame 0)) s) = surface s"
    by (rule step_surface) simp
qed

text \<open>The two histories in which the first image decodes late.\<close>

lemma late_first:
  "images late_first_same = images late_first_moved"
  "isLoaded late_first_same" "isLoaded late_first_moved"
  "images late_first_same 50 = Some (frame 50)"
  "currentFrame late_first_same = Num 50" "currentFrame late_first_moved = Num 50"
  "canvas_image late_first_same = Some (frame 0)"
  "canvas_image late_first_moved = Some (frame 50)"
proof -
  define b1 where "b1 = step (env_at (- 68) 1056) Scroll ready_page"
  define b2 where "b2 = step e0 (FirstImageLoad (frame 0)) b1"
  define c1 where "c1 = step (env_at (- 66) 1056) Scroll ready_page"
  define c2 where "c2 = step e0 (FirstImageLoad (frame 0)) c1"
  have same: "late_first_same = step (env_at (- 68) 1056) Scroll b2"
    by (simp add: late_first_same_def b1_def b2_def)
  have moved: "late_first_moved = step (env_at (- 68) 1056) Scroll c2"
    by (simp add: late_first_moved_def c1_def c2_def)
  note sb1 = step_Scroll_canvas [OF ready_page_fields(1) scroll_env(1) scroll_target(2),
      folded b1_def]
  note sc1 = step_Scroll_canvas [OF ready_page_fields(1) scroll_env(1) scroll_target(1),
      folded c1_def]
  have b1: "currentFrame b1 = Num 50" "surface b1 = (Num 1280, Num 800, Num 1, 1280, 800, False)"
    using sb1(3,4) by (simp_all add: ready_page_fields ready_slots jsne_def ready_page_surface)
  have c1: "currentFrame c1 = Num 49" "surface c1 = (Num 1280, Num 800, Num 1, 1280, 800, False)"
    using sc1(3,4) by (simp_all add: ready_page_fields ready_slots jsne_def ready_page_surface)
  note fb = first_image_late [OF b1(2), of e0, folded b2_def]
  note fc = first_image_late [OF c1(2), of e0, folded c2_def]
  have b2: "isLoaded b2" "images b2 = images ready_page" "currentFrame b2 = Num 50"
    using fb sb1(1,2) b1 by (simp_all add: ready_slots)
  have c2: "isLoaded c2" "images c2 = images ready_page" "currentFrame c2 = Num 49"
    "surface c2 = (Num 1280, Num 800, Num 1, 1280, 800, False)"
    using fc sc1(1,2) c1 by (simp_all add: ready_slots)
  note sb3 = step_Scroll_canvas [OF b2(1) scroll_env(1) scroll_target(2), folded same]
  note sc3 = step_Scroll_canvas [OF c2(1) scroll_env(1) scroll_target(2), folded moved]
  show "images late_first_same = images late_first_moved"
    using sb3(1) sc3(1) b2(2) c2(2) by simp
  show "isLoaded late_first_same" "isLoaded late_first_moved" by (rule sb3(2), rule sc3(2))
  show "images late_first_same 50 = Some (frame 50)"
    using sb3(1) b2(2) by (simp add: ready_slots)
  show "currentFrame late_first_same = Num 50"
    using sb3(4) b2 by (simp add: jsne_def)
  show "currentFrame late_first_moved = Num 50"
    using sc3(4) c2 by (simp add: jsne_def ready_slots)
  have "ctx late_first_same = ctx b2" using sb3(5) b2 by (simp add: jsne_def)
  then show "canvas_image late_first_same = Some (frame 0)"
    using fb(1) by (simp add: canvas_image_def)
  have "ctx late_first_moved = ctx (drawFrame (env_at (- 68) 1056) (Num 50) c2)"
    using sc3(5) c2 by (simp add: jsne_def ready_slots)
  then have "canvas_image late_first_moved
      = canvas_image (drawFrame (env_at (- 68) 1056) (Num 50) c2)"
    by (rule canvas_image_cong)
  also have "\<dots> = Some (frame 50)"
    by (rule drawFrame_frame_image) (simp_all add: c2 ready_slots)
  finally show "canvas_image late_first_moved = Some (frame 50)" .
qed

text \<open>The two histories over the page where frame 50 failed, seen from the canvas.\<close>

lemma below_above_canvas:
  "surface from_below = surface from_above"
  "images from_below 49 = Some (frame 49)"
  "surface from_below = (Num 1280, Num 800, Num 1, 1280, 800, False)"
  "holds_frame (env_at (- 66) 1056) (Num 49) from_below"
proof -
  define a where "a = step (env_at (- 66) 1056) Scroll gap_page"
  define b where "b = step (env_at (- 69) 1056) Scroll gap_page"
  have below: "from_below = step (env_at (- 68) 1056) Scroll a"
    by (simp add: from_below_def a_def)
  have above: "from_above = step (env_at (- 68) 1056) Scroll b"
    by (simp add: from_above_def b_def)
  note sa = step_Scroll_canvas [OF gap_page_fields(1) scroll_env(1) scroll_target(1),
      folded a_def]
  note sb = step_Scroll_canvas [OF gap_page_fields(1) scroll_env(1) scroll_target(3),
      folded b_def]
  note ta = step_Scroll_canvas [OF sa(2) scroll_env(1) scroll_target(2), folded below]
  note tb = step_Scroll_canvas [OF sb(2) scroll_env(1) scroll_target(2), folded above]
  show "surface from_below = surface from_above"
    using ta(3) tb(3) sa(3) sb(3) by simp
  have im: "images from_below = images gap_page" using ta(1) sa(1) by simp
  then show "images from_below 49 = Some (frame 49)" by (simp add: gap_slots)
  have su: "surface from_below = surface gap_page" using ta(3) sa(3) by simp
  then show "surface from_below = (Num 1280, Num 800, Num 1, 1280, 800, False)"
    by (simp add: gap_page_surface)
  have l: "images_at (images gap_page) (Num 49) \<noteq> None" by (simp add: gap_slots)
  have "ctx a = ctx (drawFrame (env_at (- 66) 1056) (Num 49) gap_page)"
    using sa(5) by (simp add: gap_page_fields gap_slots jsne_def)
  moreover have "ctx from_below = ctx a"
    using ta(5) sa(1) by (simp add: gap_slots)
  moreover have "ctx (drawFrame (env_at (- 66) 1056) (Num 49) from_below)
      = ctx (drawFrame (env_at (- 66) 1056) (Num 49) gap_page)"
    using l im su by (rule drawFrame_ctx_cong)
  ultimately show "holds_frame (env_at (- 66) 1056) (Num 49) from_below"
    by (simp add: holds_frame_def)
qed

text \<open>
  A scroll evaluation keeps the canvas in step with \<open>currentFrame\<close>: if the canvas held
  the current frame before, it holds the current frame after.
\<close>

lemma holds_frame_unloaded: "images_at (images s) k = None \<Longrightarrow> holds_frame ev k s"
  by (simp add: holds_frame_def drawFrame_unloaded)

lemma scroll_keeps_canvas:
  assumes "isLoaded s" and "hero ev = Some (t, h)"
    and "holds_frame ev (currentFrame s) s"
  shows "\<exists>s'. handleScroll ev s = Inr s' \<and> holds_frame ev (currentFrame s') s'"
proof -
  define nf where "nf = newFrame (progress t h (innerHeight ev))"
  from handleScroll_canvas [OF assms(1,2), folded nf_def] obtain s' where
    s': "handleScroll ev s = Inr s'" "images s' = images s" "surface s' = surface s"
      "currentFrame s' =
         (if jsne nf (currentFrame s) \<and> images_at (images s) nf \<noteq> None
          then nf else currentFrame s)"
      "ctx s' =
         (if jsne nf (currentFrame s) \<and> images_at (images s) nf \<noteq> None
          then ctx (drawFrame ev nf s) else ctx s)"
    by blast
  have "holds_frame ev (currentFrame s') s'"
  proof (cases "jsne nf (currentFrame s) \<and> images_at (images s) nf \<noteq> None")
    case True
    then have l: "images_at (images s) nf \<noteq> None" by simp
    from True s' have "currentFrame s' = nf" "ctx s' = ctx (drawFrame ev nf s)" by simp_all
    moreover have "ctx (drawFrame ev nf s') = ctx (drawFrame ev nf s)"
      using l s'(2,3) by (rule drawFrame_ctx_cong)
    ultimately show ?thesis by (simp add: holds_frame_def)
  next
    case False
    with s' have c: "currentFrame s' = currentFrame s" "ctx s' = ctx s" by auto
    show ?thesis
    proof (cases "images_at (images s) (currentFrame s)")
      case None
      then have "images_at (images s') (currentFrame s') = None" using s'(2) c by simp
      then show ?thesis by (rule holds_frame_unloaded)
    next
      case (Some im)
      then have "images_at (images s) (currentFrame s) \<noteq> None" by simp
      from holds_frame_cong [OF this s'(2,3) c(2)] assms(3) c show ?thesis by simp
    qed
  qed
  with s'(1) show ?thesis by blast
qed

text \<open>
  Claim C3, as stated: the frame shown at a scroll position does not depend on the scroll
  positions before it. It does, in two ways. When the slot of that position is not
  loaded: \<open>from_below\<close> and \<open>from_above\<close> went through the same decode callbacks (frame 50
  failed) and end with a scroll evaluation at the position of frame 50; the one that came
  from the position of frame 49 shows frame 49, the one that came from the position of
  frame 51 shows frame 51. And when the slot is loaded but the canvas no longer holds the
  current frame: in \<open>late_first_same\<close> and \<open>late_first_moved\<close> every frame decoded, the
  first image decoded late and was painted over the current frame (lines 79 to 82), and
  both end at the position of frame 50 with \<open>currentFrame\<close> 50; where the earlier scroll
  evaluation was at that same position, line 203 sees no change and the canvas keeps the
  image of frame 0, where it was at the position of frame 49 the canvas gets frame 50.
\<close>

theorem frame_depends_on_history:
  "images from_below = images from_above \<and> isLoaded from_below \<and> isLoaded from_above \<and>
   currentFrame from_below = Num 49 \<and> currentFrame from_above = Num 51 \<and>
   images late_first_same = images late_first_moved \<and>
   isLoaded late_first_same \<and> isLoaded late_first_moved \<and>
   images late_first_same 50 = Some (frame 50) \<and>
   currentFrame late_first_same = Num 50 \<and> currentFrame late_first_moved = Num 50 \<and>
   canvas_image late_first_same = Some (frame 0) \<and>
   canvas_image late_first_moved = Some (frame 50)"
  using two_histories late_first by simp

text \<open>
  Claim C3, amended. Take two ready players with the same loaded frames, evaluated at the
  same scroll position, where the slot of the frame of that position is loaded and where
  a player whose current frame already is that frame still holds it on its canvas. After
  the evaluation, whatever the two players showed before, \<open>currentFrame\<close> is that frame
  in both, both canvases hold the rendering of that frame, and when the two surfaces are
  the same the two contexts (transform, fill style and pixel buffer) are equal.
\<close>

theorem frame_determined_when_target_loaded:
  assumes "isLoaded s1" and "isLoaded s2" and "images s1 = images s2"
    and "hero ev = Some (t, h)"
    and "images_at (images s1) (newFrame (progress t h (innerHeight ev))) \<noteq> None"
    and "currentFrame s1 = newFrame (progress t h (innerHeight ev)) \<Longrightarrow>
           holds_frame ev (newFrame (progress t h (innerHeight ev))) s1"
    and "currentFrame s2 = newFrame (progress t h (innerHeight ev)) \<Longrightarrow>
           holds_frame ev (newFrame (progress t h (innerHeight ev))) s2"
  shows "\<exists>s1' s2'. handleScroll ev s1 = Inr s1' \<and> handleScroll ev s2 = Inr s2' \<and>
           currentFrame s1' = newFrame (progress t h (innerHeight ev)) \<and>
           currentFrame s2' = newFrame (progress t h (innerHeight ev)) \<and>
           holds_frame ev (newFrame (progress t h (innerHeight ev))) s1' \<and>
           holds_frame ev (newFrame (progress t h (innerHeight ev))) s2' \<and>
           (surface s1 = surface s2 \<longrightarrow> ctx s1' = ctx s2')"
proof -
  define nf where "nf = newFrame (progress t h (innerHeight ev))"
  have l1: "images_at (images s1) nf \<noteq> None" using assms(5) by (simp add: nf_def)
  then have l2: "images_at (images s2) nf \<noteq> None" using assms(3) by simp
  have after: "\<exists>s'. handleScroll ev s = Inr s' \<and> images s' = images s \<and>
      surface s' = surface s \<and> currentFrame s' = nf \<and> ctx s' = ctx (drawFrame ev nf s)"
    if "isLoaded s" and l: "images_at (images s) nf \<noteq> None"
      and hf: "currentFrame s = nf \<Longrightarrow> holds_frame ev nf s" for s
  proof -
    from handleScroll_canvas [OF that(1) assms(4), folded nf_def] obtain s' where
      s': "handleScroll ev s = Inr s'" "images s' = images s" "surface s' = surface s"
        "currentFrame s' =
           (if jsne nf (currentFrame s) \<and> images_at (images s) nf \<noteq> None
            then nf else currentFrame s)"
        "ctx s' =
           (if jsne nf (currentFrame s) \<and> images_at (images s) nf \<noteq> None
            then ctx (drawFrame ev nf s) else ctx s)"
      by blast
    show ?thesis
    proof (cases "jsne nf (currentFrame s)")
      case True
      with s' l show ?thesis by simp
    next
      case False
      then have "currentFrame s = nf" by (simp add: jsne_def)
      moreover from this have "ctx (drawFrame ev nf s) = ctx s"
        using hf by (simp add: holds_frame_def)
      ultimately show ?thesis using s' False by simp
    qed
  qed
  from after [OF assms(1) l1 assms(6) [folded nf_def]] obtain s1' where
    1: "handleScroll ev s1 = Inr s1'" "images s1' = images s1" "surface s1' = surface s1"
       "currentFrame s1' = nf" "ctx s1' = ctx (drawFrame ev nf s1)"
    by blast
  from after [OF assms(2) l2 assms(7) [folded nf_def]] obtain s2' where
    2: "handleScroll ev s2 = Inr s2'" "images s2' = images s2" "surface s2' = surface s2"
       "currentFrame s2' = nf" "ctx s2' = ctx (drawFrame ev nf s2)"
    by blast
  have h1: "holds_frame ev nf s1'"
    unfolding holds_frame_def 1(5) by (rule drawFrame_ctx_cong [OF l1 1(2) 1(3)])
  have h2: "holds_frame ev nf s2'"
    unfolding holds_frame_def 2(5) by (rule drawFrame_ctx_cong [OF l2 2(2) 2(3)])
  have "ctx s1' = ctx s2'" if "surface s1 = surface s2"
    unfolding 1(5) 2(5)
    by (rule drawFrame_ctx_cong [OF l2]) (simp_all add: assms(3) that)
  with 1(1,4) 2(1,4) h1 h2 show ?thesis unfolding nf_def by blast
qed

theorem frame_determined_when_target_loaded_witness:
  "\<exists>s1' s2'. handleScroll (env_at (- 66) 1056) from_below = Inr s1' \<and>
      handleScroll (env_at (- 66) 1056) from_above = Inr s2' \<and>
      currentFrame s1' = Num 49 \<and> currentFrame s2' = Num 49 \<and>
      holds_frame (env_at (- 66) 1056) (Num 49) s1' \<and>
      holds_frame (env_at (- 66) 1056) (Num 49) s2' \<and>
      ctx s1' = ctx s2' \<and> canvas_image s1' = Some (frame 49)"
proof -
  have l: "images_at (images from_below)
      (newFrame (progress (Num (- 66)) (Num 1056) (innerHeight (env_at (- 66) 1056)))) \<noteq> None"
    by (simp add: scroll_target below_above_canvas(2))
  have h1: "holds_frame (env_at (- 66) 1056)
      (newFrame (progress (Num (- 66)) (Num 1056) (innerHeight (env_at (- 66) 1056)))) from_below"
    by (simp add: scroll_target below_above_canvas(4))
  have h2: "holds_frame (env_at (- 66) 1056)
      (newFrame (progress (Num (- 66)) (Num 1056) (innerHeight (env_at (- 66) 1056)))) from_above"
    if "currentFrame from_above
      = newFrame (progress (Num (- 66)) (Num 1056) (innerHeight (env_at (- 66) 1056)))"
    using that two_histories by (simp add: scroll_target)
  from frame_determined_when_target_loaded
         [of from_below from_above "env_at (- 66) 1056" "Num (- 66)" "Num 1056",
          OF _ _ _ scroll_env(1) l h1 h2]
       two_histories
  obtain s1' s2' where r:
    "handleScroll (env_at (- 66) 1056) from_below = Inr s1'"
    "handleScroll (env_at (- 66) 1056) from_above = Inr s2'"
    "currentFrame s1' = Num 49" "currentFrame s2' = Num 49"
    "holds_frame (env_at (- 66) 1056) (Num 49) s1'"
    "holds_frame (env_at (- 66) 1056) (Num 49) s2'"
    "ctx s1' = ctx s2'"
    by (auto simp add: scroll_target below_above_canvas(1))
  have "images s1' = images from_below" using r(1) by (rule handleScroll_images)
  then have i: "images_at (images s1') (Num 49) = Some (frame 49)"
    by (simp add: below_above_canvas(2))
  have "surface s1' = surface from_below" using r(1) by (rule handleScroll_surface)
  then have s: "surface s1' = (Num 1280, Num 800, Num 1, 1280, 800, False)"
    by (simp add: below_above_canvas(3))
  have "canvas_image s1' = canvas_image (drawFrame (env_at (- 66) 1056) (Num 49) s1')"
    using r(5) by (intro canvas_image_cong) (simp add: holds_frame_def)
  also have "\<dots> = Some (frame 49)" using i s by (rule drawFrame_frame_image)
  finally have "canvas_image s1' = Some (frame 49)" .
  with r show ?thesis by blast
qed

subsection \<open>The ready transition\<close>

lemma failure_last_run:
  "loadedCount (run (failure_last ev) (constructor ev page)) = frameCount"
  "isLoaded (run (failure_last ev) (constructor ev page)) = False"
  "pendingHide (run (failure_last ev) (constructor ev page)) = 0"
proof -
  have lt: "50 < frameCount" by (simp add: frameCount_def)
  have cb: "\<forall>x \<in> set (loads ev ([0..<50] @ [51..<frameCount])). callback (snd x)"
    using lt by (intro loads_callbacks) auto
  have last: "callback (ImageError 50)" using lt by simp
  have "length (loads ev ([0..<50] @ [51..<frameCount])) = frameCount - 1"
    using lt by (simp add: loads_def)
  then have n: "loadedCount (constructor ev page)
      + length (loads ev ([0..<50] @ [51..<frameCount])) + 1 = frameCount"
    using lt by (simp add: constructor_fields)
  note r = run_callbacks_all [OF cb last n, of ev]
  show "loadedCount (run (failure_last ev) (constructor ev page)) = frameCount"
    using r(1) by (simp add: failure_last_def)
  show "isLoaded (run (failure_last ev) (constructor ev page)) = False"
    using r(2) by (simp add: failure_last_def constructor_not_loaded)
  show "pendingHide (run (failure_last ev) (constructor ev page)) = 0"
    using r(3) by (simp add: failure_last_def constructor_fields)
qed

text \<open>
  Whatever the order and the outcomes of the \<open>frameCount\<close> callbacks, the player becomes
  ready, and schedules its one timeout, exactly when the callback that completes the
  count is an \<^verbatim>\<open>onload\<close>: the test of line 96 is missing from \<^verbatim>\<open>onerror\<close>.
\<close>

lemma ready_iff_last_succeeds:
  assumes "\<forall>x \<in> set es. callback (snd x)" and "callback e" and "length es + 1 = frameCount"
  shows "isLoaded (run (es @ [(ev, e)]) (constructor ev' page)) = success e"
    and "pendingHide (run (es @ [(ev, e)]) (constructor ev' page)) = (if success e then 1 else 0)"
proof -
  have n: "loadedCount (constructor ev' page) + length es + 1 = frameCount"
    using assms(3) by (simp add: constructor_fields)
  note r = run_callbacks_all [OF assms(1) assms(2) n, of ev]
  show "isLoaded (run (es @ [(ev, e)]) (constructor ev' page)) = success e"
    using r(2) by (simp add: constructor_not_loaded)
  show "pendingHide (run (es @ [(ev, e)]) (constructor ev' page)) = (if success e then 1 else 0)"
    using r(3) by (simp add: constructor_fields)
qed

text \<open>
  Claim C2. When the completed count reaches \<open>frameCount\<close> the player should become ready
  and schedule the hiding of the preloader once, whatever the order and the outcomes of
  the callbacks. With the schedule \<open>failure_last\<close> (frame 50 fails, and its error
  callback is the last to arrive) the count reaches 192, the player is not ready and no
  timeout is scheduled.
\<close>

theorem ready_missed_when_failure_is_last:
  "loadedCount (run (failure_last ev) (constructor ev page)) = frameCount \<and>
   isLoaded (run (failure_last ev) (constructor ev page)) = False \<and>
   pendingHide (run (failure_last ev) (constructor ev page)) = 0"
  by (simp add: failure_last_run)

subsection \<open>From progress to frame\<close>

lemma fl_rnd: "\<bar>rnd x\<bar> < 2 ^ 1024 \<Longrightarrow> fl x = Num (rnd x)"
  by (auto simp add: fl_def Let_def)

lemma rnd_le_pow2:
  assumes "x \<le> 2 ^ n"
  shows "rnd x \<le> 2 ^ n"
proof -
  have "rnd (of_int 1 * 2 powi (int n)) = of_int 1 * 2 powi (int n)"
    by (rule rnd_exact) simp_all
  then have "rnd (2 ^ n) = 2 ^ n" by simp
  with rnd_mono [OF assms] show ?thesis by simp
qed

lemma fl_bounded:
  assumes "0 \<le> x" and "x \<le> 2 ^ n" and "n < 1024"
  shows "fl x = Num (rnd x)"
proof -
  have "rnd x \<le> 2 ^ n" using assms(2) by (rule rnd_le_pow2)
  also have "(2::real) ^ n < 2 ^ 1024" using assms(3) by (intro power_strict_increasing) simp_all
  finally have "rnd x < 2 ^ 1024" .
  moreover have "0 \<le> rnd x" using assms(1) by (rule rnd_nonneg)
  ultimately show ?thesis by (intro fl_rnd) simp
qed

lemma rnd_191_half: "rnd (191 / 2) = 191 / 2" "rnd (191 / 4) = 191 / 4" "rnd (573 / 4) = 573 / 4"
  by code_simp+

lemma targetFrame_unit:
  assumes "0 \<le> p" and "p \<le> 1"
  shows "targetFrame (Num p) = Num (of_int \<lfloor>rnd (p * 191)\<rfloor>)"
    and "0 \<le> rnd (p * 191)" and "rnd (p * 191) \<le> 191"
proof -
  have nn: "0 \<le> p * 191" using assms(1) by simp
  then show 0: "0 \<le> rnd (p * 191)" by (rule rnd_nonneg)
  have "rnd (p * 191) \<le> rnd 191" using assms(2) by (intro rnd_mono) simp
  then show 1: "rnd (p * 191) \<le> 191" by (simp add: rnd_values)
  have "p * 191 \<le> 2 ^ 8" using assms(2) by simp
  with nn have "fl (p * 191) = Num (rnd (p * 191))" by (rule fl_bounded) simp
  moreover have "targetFrame (Num p) = jfloor (jmul (Num p) (Num 191))"
    by (simp only: targetFrame_def last_frame)
  ultimately show "targetFrame (Num p) = Num (of_int \<lfloor>rnd (p * 191)\<rfloor>)"
    by simp
qed

text \<open>
  Claim C7. For a progress \<open>p\<close> in \<open>[0, 1]\<close>, the target frame
  \<^verbatim>\<open>Math.floor(progress * (frameCount - 1))\<close> is an integer between 0 and 191, it does
  not decrease when the progress increases, and the progress \<open>0.5\<close> gives frame 95.
  The product is the rounded one of the source.
\<close>

theorem targetFrame_monotone_in_range:
  assumes "0 \<le> p" and "p \<le> q" and "q \<le> 1"
  shows "(\<exists>a b. targetFrame (Num p) = Num (of_int a) \<and> targetFrame (Num q) = Num (of_int b) \<and>
            0 \<le> a \<and> a \<le> b \<and> b \<le> int frameCount - 1) \<and>
         targetFrame (Num (1 / 2)) = Num 95"
proof -
  have p1: "p \<le> 1" and q0: "0 \<le> q" using assms by simp_all
  note tp = targetFrame_unit [OF assms(1) p1]
  note tq = targetFrame_unit [OF q0 assms(3)]
  have "rnd (p * 191) \<le> rnd (q * 191)" using assms(2) by (intro rnd_mono) simp
  then have m: "\<lfloor>rnd (p * 191)\<rfloor> \<le> \<lfloor>rnd (q * 191)\<rfloor>" by (rule floor_mono)
  have lo: "0 \<le> \<lfloor>rnd (p * 191)\<rfloor>" using tp(2) by simp
  have "\<lfloor>rnd (q * 191)\<rfloor> \<le> \<lfloor>191::real\<rfloor>" using tq(3) by (rule floor_mono)
  then have hi: "\<lfloor>rnd (q * 191)\<rfloor> \<le> int frameCount - 1" by (simp add: frameCount_def)
  have half: "targetFrame (Num (1 / 2)) = Num 95"
    using targetFrame_unit(1) [of "1 / 2"] by (simp add: rnd_191_half)
  from tp(1) tq(1) lo m hi half show ?thesis by blast
qed

theorem targetFrame_monotone_in_range_witness:
  "targetFrame (Num (1 / 4)) = Num 47 \<and> targetFrame (Num (3 / 4)) = Num 143 \<and>
   (\<exists>a b. targetFrame (Num (1 / 4)) = Num (of_int a) \<and>
          targetFrame (Num (3 / 4)) = Num (of_int b) \<and>
          0 \<le> a \<and> a \<le> b \<and> b \<le> int frameCount - 1)"
proof -
  have "targetFrame (Num (1 / 4)) = Num 47" "targetFrame (Num (3 / 4)) = Num 143"
    using targetFrame_unit(1) [of "1 / 4"] targetFrame_unit(1) [of "3 / 4"]
    by (simp_all add: rnd_191_half)
  with targetFrame_monotone_in_range [of "1 / 4" "3 / 4"] show ?thesis by simp
qed

subsection \<open>The cover fit\<close>









end
